theory Spec2Isabelle
  imports Main "HOL-Library.Sublist" "HOL-Library.AList"
begin

section \<open>The world the backup script runs in\<close>

text \<open>
  The script \<^verbatim>\<open>backpy.py\<close> is a sequence of calls into the operating system
  (\<^verbatim>\<open>os\<close>, \<^verbatim>\<open>shutil\<close>, \<^verbatim>\<open>zipfile\<close>) and into \<^verbatim>\<open>logging\<close>. Its model threads a
  \<open>world\<close> through every call: the file system, an oracle that says which system calls
  the operating system refuses, the clock, and the trace of what the script has done.

  Conventions of the model:
  \<^item> a path is the list of its components, absolute and normalised (no \<^verbatim>\<open>.\<close>, no
    \<^verbatim>\<open>..\<close>, one drive), so \<^verbatim>\<open>os.path.join\<close> of a directory and a relative path is
    \<open>@\<close> and \<^verbatim>\<open>os.path.dirname\<close> is \<open>butlast\<close>;
  \<^item> the file system is an association list from paths to nodes, read through
    \<open>map_of\<close>; directory listings follow the order of the list and name every entry once;
  \<^item> an exception is a value \<open>Inl e\<close>; every system call that can raise consults the
    oracle \<open>io_error\<close> first, and then fails where the file system itself makes it fail;
  \<^item> a failing \<^verbatim>\<open>shutil.rmtree\<close> is taken to remove nothing;
  \<^item> \<^verbatim>\<open>logging\<close> appends a line to the trace (the log file on disk is not a node of the
    modelled file system), progress bars are left out;
  \<^item> the worker pool of \<^verbatim>\<open>_copy_files_to_staging_parallel\<close> runs its workers one after
    the other, in the order of submission.
\<close>

type_synonym path = "string list"

datatype content = Raw string | Archive "(path \<times> content) list"

datatype node = Dir int | File content int

datatype err = RuntimeError | OSError | ValueError

datatype sysop =
    OpOpenW path
  | OpRmtree path
  | OpMakedirs path
  | OpGetsize path
  | OpGetmtime path
  | OpListdir path
  | OpRemove path
  | OpCopy2 path path
  | OpZipOpen path
  | OpZipWrite path path

datatype fname =
    LockFile_enter_f
  | LockFile_exit_f
  | get_files_to_backup_f
  | copy_worker_f
  | copy_files_to_staging_parallel_f
  | zip_staging_folder_f
  | cleanup_f

datatype level = INFO | WARNING | ERROR | CRITICAL

datatype msg =
    MsgStart
  | MsgSourceMissing path
  | MsgCopyFail path err
  | MsgCopying nat nat nat
  | MsgDryCopy
  | MsgDryZip path
  | MsgZipping path
  | MsgZipDone
  | MsgDryClean path
  | MsgCleaning path
  | MsgChecking int
  | MsgDryDelete string
  | MsgDeleting string
  | MsgPruneError err
  | MsgNoFiles
  | MsgExecError err
  | MsgFatal
  | MsgElapsed
  | MsgFinished

datatype event = Log level msg | Sys sysop | Enter fname

record world =
  entries :: "(path \<times> node) list"
  io_error :: "sysop \<Rightarrow> bool"
  clock :: int
  timestamp :: string
  pid :: string
  trace :: "event list"

type_synonym 'a io = "world \<Rightarrow> (err + 'a) \<times> world"

text \<open>The fields of \<^verbatim>\<open>BackupRunner\<close>: the configuration keys and the dry-run flag.\<close>

record runner =
  source_folders :: "path list"
  destination :: path
  staging_dir :: path
  parallel_workers :: nat
  retention :: int
  name_prefix :: string
  dry_run :: bool

definition lock_path :: "runner \<Rightarrow> path" where
  "lock_path r = destination r @ [''.backup.lock'']"

subsection \<open>Sequencing\<close>

definition return_io :: "'a \<Rightarrow> 'a io" where
  "return_io x w = (Inr x, w)"

definition and_then :: "'a io \<Rightarrow> ('a \<Rightarrow> 'b io) \<Rightarrow> 'b io" where
  "and_then m f w = (case m w of (Inl e, w1) \<Rightarrow> (Inl e, w1) | (Inr x, w1) \<Rightarrow> f x w1)"

definition emit :: "event \<Rightarrow> world \<Rightarrow> world" where
  "emit e w = w\<lparr>trace := trace w @ [e]\<rparr>"

definition logging :: "level \<Rightarrow> msg \<Rightarrow> world \<Rightarrow> world" where
  "logging l m w = emit (Log l m) w"

text \<open>A system call is recorded, then refused by the oracle or carried out.\<close>

definition attempt :: "sysop \<Rightarrow> 'a io \<Rightarrow> 'a io" where
  "attempt op k w =
     (let w1 = emit (Sys op) w
      in if io_error w op then (Inl OSError, w1) else k w1)"

subsection \<open>The file system calls\<close>

definition lookup :: "world \<Rightarrow> path \<Rightarrow> node option" where
  "lookup w p = map_of (entries w) p"

definition exists :: "world \<Rightarrow> path \<Rightarrow> bool" where
  "exists w p = (lookup w p \<noteq> None)"

definition isdir :: "world \<Rightarrow> path \<Rightarrow> bool" where
  "isdir w p = (case lookup w p of Some (Dir t) \<Rightarrow> True | _ \<Rightarrow> False)"

definition isfile :: "world \<Rightarrow> path \<Rightarrow> bool" where
  "isfile w p = (case lookup w p of Some (File c t) \<Rightarrow> True | _ \<Rightarrow> False)"

definition put :: "path \<Rightarrow> node \<Rightarrow> world \<Rightarrow> world" where
  "put p n w = w\<lparr>entries := AList.update p n (entries w)\<rparr>"

definition unlink :: "path \<Rightarrow> world \<Rightarrow> world" where
  "unlink p w = w\<lparr>entries := AList.delete p (entries w)\<rparr>"

fun csize :: "content \<Rightarrow> nat" where
  "csize (Raw s) = length s"
| "csize (Archive es) = (\<Sum>e\<leftarrow>es. length (fst e) + csize (snd e))"

definition getsize :: "path \<Rightarrow> nat io" where
  "getsize p =
     attempt (OpGetsize p) (\<lambda>w.
       case lookup w p of
         None \<Rightarrow> (Inl OSError, w)
       | Some (Dir t) \<Rightarrow> (Inr 0, w)
       | Some (File c t) \<Rightarrow> (Inr (csize c), w))"

definition getmtime :: "path \<Rightarrow> int io" where
  "getmtime p =
     attempt (OpGetmtime p) (\<lambda>w.
       case lookup w p of
         None \<Rightarrow> (Inl OSError, w)
       | Some (Dir t) \<Rightarrow> (Inr t, w)
       | Some (File c t) \<Rightarrow> (Inr t, w))"

text \<open>\<^verbatim>\<open>open(path, 'w')\<close> followed by a write: the parent must be a directory.\<close>

definition open_write :: "path \<Rightarrow> content \<Rightarrow> unit io" where
  "open_write p c =
     attempt (OpOpenW p) (\<lambda>w.
       if isdir w p \<or> \<not> isdir w (butlast p) then (Inl OSError, w)
       else (Inr (), put p (File c (clock w)) w))"

definition os_remove :: "path \<Rightarrow> unit io" where
  "os_remove p =
     attempt (OpRemove p) (\<lambda>w.
       if isfile w p then (Inr (), unlink p w) else (Inl OSError, w))"

definition rmtree :: "path \<Rightarrow> unit io" where
  "rmtree p =
     attempt (OpRmtree p) (\<lambda>w.
       if isdir w p
       then (Inr (), w\<lparr>entries := filter (\<lambda>e. \<not> prefix p (fst e)) (entries w)\<rparr>)
       else (Inl OSError, w))"

text \<open>
  \<^verbatim>\<open>os.makedirs(p, exist_ok=True)\<close>: every missing ancestor is created, the shortest
  first; a component that is a file makes the call fail.
\<close>

fun mkdirs :: "path list \<Rightarrow> unit io" where
  "mkdirs [] w = (Inr (), w)"
| "mkdirs (q # qs) w =
     (case lookup w q of
        None \<Rightarrow> mkdirs qs (put q (Dir (clock w)) w)
      | Some (Dir t) \<Rightarrow> mkdirs qs w
      | Some (File c t) \<Rightarrow> (Inl OSError, w))"

definition makedirs :: "path \<Rightarrow> unit io" where
  "makedirs p = attempt (OpMakedirs p) (mkdirs (tl (prefixes p)))"

text \<open>The names in a directory, each once, in the order of the association list.\<close>

definition children :: "world \<Rightarrow> path \<Rightarrow> string list" where
  "children w d =
     remdups (map (\<lambda>e. last (fst e))
       (filter (\<lambda>e. fst e \<noteq> [] \<and> butlast (fst e) = d) (entries w)))"

definition listdir :: "path \<Rightarrow> string list io" where
  "listdir d =
     attempt (OpListdir d) (\<lambda>w.
       if isdir w d then (Inr (children w d), w) else (Inl OSError, w))"

text \<open>
  The files that \<^verbatim>\<open>os.walk(d)\<close> reaches, as \<^verbatim>\<open>os.path.join(root, f)\<close>: every file
  strictly below \<open>d\<close>. \<^verbatim>\<open>os.walk\<close> swallows its own errors.
\<close>

definition walk_files :: "world \<Rightarrow> path \<Rightarrow> path list" where
  "walk_files w d =
     filter (\<lambda>p. strict_prefix d p \<and> isfile w p) (remdups (map fst (entries w)))"

text \<open>\<^verbatim>\<open>os.path.basename\<close>, as a relative path: the last component, if there is one.\<close>

definition basename :: "path \<Rightarrow> path" where
  "basename p = (if p = [] then [] else [last p])"

text \<open>
  \<^verbatim>\<open>shutil.copy2(src, dst)\<close>: when \<open>dst\<close> is an existing directory, the target is
  \<^verbatim>\<open>os.path.join(dst, os.path.basename(src))\<close>, the file goes into the directory; otherwise
  the target is \<open>dst\<close>. Content and modification time of the source go to the target.
  Copying a file onto itself, reading a directory, writing into a missing directory or
  over a directory raise.
\<close>

definition copy2_target :: "world \<Rightarrow> path \<Rightarrow> path \<Rightarrow> path" where
  "copy2_target w src dst = (if isdir w dst then dst @ basename src else dst)"

definition copy2 :: "path \<Rightarrow> path \<Rightarrow> unit io" where
  "copy2 src dst =
     attempt (OpCopy2 src dst) (\<lambda>w.
       case lookup w src of
         Some (File c t) \<Rightarrow>
           (let target = copy2_target w src dst
            in if src = target \<or> isdir w target \<or> \<not> isdir w (butlast target)
               then (Inl OSError, w)
               else (Inr (), put target (File c t) w))
       | _ \<Rightarrow> (Inl OSError, w))"

subsection \<open>Path arithmetic\<close>

text \<open>\<^verbatim>\<open>os.path.commonpath\<close>: the longest common prefix; no paths at all raise.\<close>

fun commonpath :: "path list \<Rightarrow> err + path" where
  "commonpath [] = Inl ValueError"
| "commonpath [p] = Inr p"
| "commonpath (p # q # ps) =
     (case commonpath (q # ps) of Inl e \<Rightarrow> Inl e | Inr c \<Rightarrow> Inr (longest_common_prefix p c))"

text \<open>\<^verbatim>\<open>os.path.relpath(p, start)\<close>: up from \<open>start\<close> to the common part, then down.\<close>

definition relpath :: "path \<Rightarrow> path \<Rightarrow> path" where
  "relpath p start =
     (let c = longest_common_prefix p start;
          r = replicate (length start - length c) ''..'' @ drop (length c) p
      in if r = [] then [''.''] else r)"

subsection \<open>String tests\<close>

definition startswith :: "string \<Rightarrow> string \<Rightarrow> bool" where
  "startswith s p = (take (length p) s = p)"

definition endswith :: "string \<Rightarrow> string \<Rightarrow> bool" where
  "endswith s x = (length x \<le> length s \<and> drop (length s - length x) s = x)"

text \<open>Python's \<^verbatim>\<open>xs[:k]\<close> for any integer \<open>k\<close>.\<close>

definition slice_to :: "'a list \<Rightarrow> int \<Rightarrow> 'a list" where
  "slice_to xs k =
     (if k < 0 then take (nat (int (length xs) + k)) xs else take (nat k) xs)"

section \<open>LockFile\<close>

definition LockFile_enter :: "path \<Rightarrow> unit io" where
  "LockFile_enter p w =
     (let w0 = emit (Enter LockFile_enter_f) w
      in if exists w0 p then (Inl RuntimeError, w0)
         else open_write p (Raw (pid w0)) w0)"

definition LockFile_exit :: "path \<Rightarrow> unit io" where
  "LockFile_exit p w =
     (let w0 = emit (Enter LockFile_exit_f) w
      in if exists w0 p then os_remove p w0 else (Inr (), w0))"

text \<open>
  \<^verbatim>\<open>with LockFile(p): body\<close>. When \<^verbatim>\<open>__enter__\<close> raises, neither the body nor
  \<^verbatim>\<open>__exit__\<close> runs. \<^verbatim>\<open>__exit__\<close> returns \<^verbatim>\<open>None\<close>, so an exception of the body goes on
  after it; an exception of \<^verbatim>\<open>__exit__\<close> itself replaces the body's outcome.
\<close>

definition with_LockFile :: "path \<Rightarrow> 'a io \<Rightarrow> 'a io" where
  "with_LockFile p body w =
     (case LockFile_enter p w of
        (Inl e, w1) \<Rightarrow> (Inl e, w1)
      | (Inr u, w1) \<Rightarrow>
          (case body w1 of
             (r, w2) \<Rightarrow>
               (case LockFile_exit p w2 of
                  (Inl e, w3) \<Rightarrow> (Inl e, w3)
                | (Inr u, w3) \<Rightarrow> (r, w3))))"

section \<open>BackupRunner\<close>

subsection \<open>Enumeration\<close>

fun get_files :: "path list \<Rightarrow> world \<Rightarrow> path list \<times> world" where
  "get_files [] w = ([], w)"
| "get_files (folder # rest) w =
     (if \<not> isdir w folder
      then get_files rest (logging WARNING (MsgSourceMissing folder) w)
      else (case get_files rest w of (fs, w1) \<Rightarrow> (walk_files w folder @ fs, w1)))"

definition get_files_to_backup :: "runner \<Rightarrow> world \<Rightarrow> path list \<times> world" where
  "get_files_to_backup r w =
     get_files (source_folders r) (emit (Enter get_files_to_backup_f) w)"

text \<open>\<^verbatim>\<open>sum(os.path.getsize(f) for f in files_to_backup)\<close>\<close>

fun sum_sizes :: "path list \<Rightarrow> nat io" where
  "sum_sizes [] = return_io 0"
| "sum_sizes (f # fs) =
     and_then (getsize f) (\<lambda>n. and_then (sum_sizes fs) (\<lambda>m. return_io (n + m)))"

subsection \<open>Copying\<close>

text \<open>The \<^verbatim>\<open>try\<close> block of \<^verbatim>\<open>_copy_worker\<close>.\<close>

definition copy_attempt :: "runner \<Rightarrow> path \<Rightarrow> (bool \<times> nat \<times> path) io" where
  "copy_attempt r src_file =
     and_then (getsize src_file) (\<lambda>file_size.
     and_then (\<lambda>w. (commonpath (source_folders r), w)) (\<lambda>start.
       let relative_path = relpath src_file start;
           dst_file = staging_dir r @ relative_path
       in and_then (makedirs (butlast dst_file)) (\<lambda>u.
          and_then (if \<not> dry_run r then copy2 src_file dst_file else return_io ()) (\<lambda>u.
          return_io (True, file_size, src_file)))))"

definition copy_worker :: "runner \<Rightarrow> path \<Rightarrow> (bool \<times> nat \<times> path) io" where
  "copy_worker r src_file w =
     (case copy_attempt r src_file (emit (Enter copy_worker_f) w) of
        (Inr res, w1) \<Rightarrow> (Inr res, w1)
      | (Inl e, w1) \<Rightarrow> (Inr (False, 0, src_file), logging ERROR (MsgCopyFail src_file e) w1))"

text \<open>
  \<^verbatim>\<open>executor.submit\<close> for every file: each future holds what its worker returned or
  raised. \<^verbatim>\<open>future.result()\<close> raises again what the worker raised.
  \<^verbatim>\<open>ThreadPoolExecutor(max_workers=0)\<close> raises \<^verbatim>\<open>ValueError\<close> before any file is
  submitted, after the two log lines.
\<close>

fun submit_all :: "runner \<Rightarrow> path list \<Rightarrow> world \<Rightarrow> (err + bool \<times> nat \<times> path) list \<times> world" where
  "submit_all r [] w = ([], w)"
| "submit_all r (f # fs) w =
     (case copy_worker r f w of
        (res, w1) \<Rightarrow> (case submit_all r fs w1 of (rs, w2) \<Rightarrow> (res # rs, w2)))"

fun results :: "(err + bool \<times> nat \<times> path) list \<Rightarrow> err + (bool \<times> nat \<times> path) list" where
  "results [] = Inr []"
| "results (Inl e # fs) = Inl e"
| "results (Inr x # fs) = (case results fs of Inl e \<Rightarrow> Inl e | Inr xs \<Rightarrow> Inr (x # xs))"

definition copy_files_to_staging_parallel ::
    "runner \<Rightarrow> path list \<Rightarrow> nat \<Rightarrow> (bool \<times> nat \<times> path) list io" where
  "copy_files_to_staging_parallel r files total_copy_size w =
     (let w0 = emit (Enter copy_files_to_staging_parallel_f) w;
          w1 = logging INFO (MsgCopying (length files) total_copy_size (parallel_workers r)) w0;
          w2 = (if dry_run r then logging INFO MsgDryCopy w1 else w1)
      in if parallel_workers r = 0 then (Inl ValueError, w2)
         else case submit_all r files w2 of (futures, w3) \<Rightarrow> (results futures, w3))"

subsection \<open>Archiving\<close>

definition zip_open :: "path \<Rightarrow> unit io" where
  "zip_open out =
     attempt (OpZipOpen out) (\<lambda>w.
       if isdir w out \<or> \<not> isdir w (butlast out) then (Inl OSError, w)
       else (Inr (), put out (File (Archive []) (clock w)) w))"

definition zip_write :: "path \<Rightarrow> path \<Rightarrow> path \<Rightarrow> unit io" where
  "zip_write out file_path arcname =
     attempt (OpZipWrite file_path arcname) (\<lambda>w.
       case lookup w file_path of
         Some (File c t) \<Rightarrow>
           (case lookup w out of
              Some (File (Archive es) t') \<Rightarrow>
                (Inr (), put out (File (Archive (es @ [(arcname, c)])) t') w)
            | _ \<Rightarrow> (Inl OSError, w))
       | _ \<Rightarrow> (Inl OSError, w))"

fun zip_write_all :: "path \<Rightarrow> path \<Rightarrow> path list \<Rightarrow> unit io" where
  "zip_write_all stg out [] = return_io ()"
| "zip_write_all stg out (file_path # rest) =
     and_then (zip_write out file_path (relpath file_path stg)) (\<lambda>u.
       zip_write_all stg out rest)"

definition zip_staging_folder :: "runner \<Rightarrow> path \<Rightarrow> unit io" where
  "zip_staging_folder r output_zip_path w =
     (let w0 = emit (Enter zip_staging_folder_f) w
      in if dry_run r then (Inr (), logging INFO (MsgDryZip output_zip_path) w0)
         else
           (let w1 = logging INFO (MsgZipping output_zip_path) w0;
                files_to_zip = walk_files w1 (staging_dir r)
            in case and_then (zip_open output_zip_path)
                      (\<lambda>u. zip_write_all (staging_dir r) output_zip_path files_to_zip) w1 of
                 (Inl e, w2) \<Rightarrow> (Inl e, w2)
               | (Inr u, w2) \<Rightarrow> (Inr (), logging INFO MsgZipDone w2)))"

subsection \<open>Cleanup and retention\<close>

definition is_backup_name :: "runner \<Rightarrow> string \<Rightarrow> bool" where
  "is_backup_name r f = (startswith f (name_prefix r) \<and> endswith f ''.zip'')"

text \<open>The keys of \<^verbatim>\<open>sorted\<close>, computed for every name before the sort.\<close>

fun getmtimes :: "path \<Rightarrow> string list \<Rightarrow> (string \<times> int) list io" where
  "getmtimes d [] = return_io []"
| "getmtimes d (f # fs) =
     and_then (getmtime (d @ [f])) (\<lambda>t.
     and_then (getmtimes d fs) (\<lambda>ks. return_io ((f, t) # ks)))"

fun delete_backups :: "runner \<Rightarrow> string list \<Rightarrow> unit io" where
  "delete_backups r [] w = (Inr (), w)"
| "delete_backups r (backup # rest) w =
     (if dry_run r then delete_backups r rest (logging INFO (MsgDryDelete backup) w)
      else (case os_remove (destination r @ [backup]) (logging INFO (MsgDeleting backup) w) of
              (Inl e, w1) \<Rightarrow> (Inl e, w1)
            | (Inr u, w1) \<Rightarrow> delete_backups r rest w1))"

text \<open>\<^verbatim>\<open>backups[:-retention]\<close> of the names sorted by modification time.\<close>

definition to_delete :: "runner \<Rightarrow> (string \<times> int) list \<Rightarrow> string list" where
  "to_delete r keyed = slice_to (map fst (sort_key snd keyed)) (- retention r)"

text \<open>The \<^verbatim>\<open>try\<close> block of \<^verbatim>\<open>_cleanup\<close>.\<close>

definition prune_backups :: "runner \<Rightarrow> unit io" where
  "prune_backups r =
     and_then (listdir (destination r)) (\<lambda>names.
     and_then (getmtimes (destination r) (filter (is_backup_name r) names)) (\<lambda>keyed.
       delete_backups r (to_delete r keyed)))"

text \<open>The first statement of \<^verbatim>\<open>_cleanup\<close>, which stands before its \<^verbatim>\<open>try\<close> block.\<close>

definition remove_staging_step :: "runner \<Rightarrow> unit io" where
  "remove_staging_step r w =
     (if exists w (staging_dir r)
      then (if dry_run r
            then (Inr (), logging INFO (MsgDryClean (staging_dir r)) w)
            else rmtree (staging_dir r) (logging INFO (MsgCleaning (staging_dir r)) w))
      else (Inr (), w))"

definition cleanup :: "runner \<Rightarrow> unit io" where
  "cleanup r w =
     (case remove_staging_step r (emit (Enter cleanup_f) w) of
        (Inl e, w1) \<Rightarrow> (Inl e, w1)
      | (Inr u, w1) \<Rightarrow>
          (case prune_backups r (logging INFO (MsgChecking (retention r)) w1) of
             (Inl e, w2) \<Rightarrow> (Inr (), logging ERROR (MsgPruneError e) w2)
           | (Inr u, w2) \<Rightarrow> (Inr (), w2)))"

subsection \<open>The run\<close>

definition backup_path :: "runner \<Rightarrow> world \<Rightarrow> path" where
  "backup_path r w = destination r @ [name_prefix r @ ''_'' @ timestamp w @ ''.zip'']"

text \<open>The body of the \<^verbatim>\<open>with\<close> statement of \<^verbatim>\<open>run\<close>.\<close>

definition backup_body :: "runner \<Rightarrow> unit io" where
  "backup_body r =
     and_then (\<lambda>w. if exists w (staging_dir r) then rmtree (staging_dir r) w else (Inr (), w)) (\<lambda>u.
     and_then (makedirs (staging_dir r)) (\<lambda>u.
     and_then (\<lambda>w. case get_files_to_backup r w of (fs, w1) \<Rightarrow> (Inr fs, w1)) (\<lambda>files_to_backup.
       if files_to_backup = [] then (\<lambda>w. (Inr (), logging WARNING MsgNoFiles w))
       else
         and_then (sum_sizes files_to_backup) (\<lambda>total_copy_size.
         and_then (copy_files_to_staging_parallel r files_to_backup total_copy_size) (\<lambda>rs.
           (\<lambda>w. zip_staging_folder r (backup_path r w) w))))))"

text \<open>
  \<^verbatim>\<open>run\<close>: the \<^verbatim>\<open>with\<close> statement inside \<^verbatim>\<open>try\<close>, the two handlers, and the
  \<^verbatim>\<open>finally\<close> clause. Both handlers only log. An exception of \<^verbatim>\<open>_cleanup\<close> leaves
  \<^verbatim>\<open>run\<close>, past the two last log lines.
\<close>

definition run :: "runner \<Rightarrow> unit io" where
  "run r w =
     (let w0 = logging INFO MsgStart w
      in case with_LockFile (lock_path r) (backup_body r) w0 of
           (res, w1) \<Rightarrow>
             (let w2 = (case res of
                          Inl RuntimeError \<Rightarrow> logging ERROR (MsgExecError RuntimeError) w1
                        | Inl e \<Rightarrow> logging CRITICAL MsgFatal w1
                        | Inr u \<Rightarrow> w1)
              in case cleanup r w2 of
                   (Inl e, w3) \<Rightarrow> (Inl e, w3)
                 | (Inr u, w3) \<Rightarrow>
                     (Inr (), logging INFO MsgFinished (logging INFO MsgElapsed w3))))"

section \<open>Observing a run\<close>

text \<open>The methods entered, in order, as the trace records them.\<close>

fun enters :: "event list \<Rightarrow> fname list" where
  "enters [] = []"
| "enters (Enter f # es) = f # enters es"
| "enters (Log l m # es) = enters es"
| "enters (Sys op # es) = enters es"

definition calls :: "world \<Rightarrow> fname list" where
  "calls w = enters (trace w)"

definition new_calls :: "world \<Rightarrow> world \<Rightarrow> fname list" where
  "new_calls w w' = drop (length (calls w)) (calls w')"

text \<open>An action that enters no method of the script.\<close>

definition quiet :: "'a io \<Rightarrow> bool" where
  "quiet m = (\<forall>w. calls (snd (m w)) = calls w)"

text \<open>
  The shapes of the calls made by the body of the \<^verbatim>\<open>with\<close> statement, for a pool of
  \<open>k\<close> workers.
\<close>

definition body_calls :: "nat \<Rightarrow> fname list \<Rightarrow> bool" where
  "body_calls k cs =
     (cs = [] \<or> cs = [get_files_to_backup_f] \<or>
      (k = 0 \<and> cs = [get_files_to_backup_f, copy_files_to_staging_parallel_f]) \<or>
      (0 < k \<and>
       (\<exists>n. cs = get_files_to_backup_f # copy_files_to_staging_parallel_f #
                  replicate n copy_worker_f @ [zip_staging_folder_f])))"

section \<open>Scenarios\<close>

text \<open>
  A source tree with two files, a destination that holds two older bundles, and a
  staging directory left over with one file in it.
\<close>

definition demo_world :: world where
  "demo_world =
     \<lparr>entries =
        [([], Dir 0),
         ([''src''], Dir 0),
         ([''src'', ''a.txt''], File (Raw ''hello'') 10),
         ([''src'', ''sub''], Dir 0),
         ([''src'', ''sub'', ''b.txt''], File (Raw ''x'') 20),
         ([''dst''], Dir 0),
         ([''dst'', ''nightly_1.zip''], File (Archive []) 3),
         ([''dst'', ''nightly_2.zip''], File (Archive []) 2),
         ([''stg''], Dir 0),
         ([''stg'', ''old.txt''], File (Raw ''old'') 5)],
      io_error = (\<lambda>op. False),
      clock = 100,
      timestamp = ''20260101_000000'',
      pid = ''42'',
      trace = []\<rparr>"

definition demo_runner :: runner where
  "demo_runner =
     \<lparr>source_folders = [[''src'']], destination = [''dst''], staging_dir = [''stg''],
      parallel_workers = 2, retention = 2, name_prefix = ''nightly'', dry_run = False\<rparr>"

text \<open>The same world when the second staged file cannot be read by the archiver.\<close>

definition zip_fails_world :: world where
  "zip_fails_world =
     demo_world\<lparr>io_error := (\<lambda>op. op = OpZipWrite [''stg'', ''sub'', ''b.txt''] [''sub'', ''b.txt''])\<rparr>"


text \<open>The same world while another process holds the lock.\<close>

definition locked_world :: world where
  "locked_world =
     demo_world\<lparr>entries := entries demo_world @ [([''dst'', ''.backup.lock''], File (Raw ''7'') 1)]\<rparr>"

text \<open>A world with no staging directory, where the staging tree cannot be removed.\<close>

definition stuck_staging_world :: world where
  "stuck_staging_world =
     demo_world\<lparr>entries := filter (\<lambda>e. \<not> prefix [''stg''] (fst e)) (entries demo_world),
                io_error := (\<lambda>op. op = OpRmtree [''stg''])\<rparr>"

definition dry_runner :: runner where
  "dry_runner = demo_runner\<lparr>dry_run := True\<rparr>"

definition keep_one_runner :: runner where
  "keep_one_runner = demo_runner\<lparr>retention := 1\<rparr>"

text \<open>The demo world when the destination directory cannot be listed.\<close>

definition unlistable_world :: world where
  "unlistable_world = demo_world\<lparr>io_error := (\<lambda>op. op = OpListdir [''dst''])\<rparr>"


section \<open>Observing the file system\<close>

text \<open>The bundles that the retention pass finds in the destination, in listing order.\<close>

definition bundles :: "runner \<Rightarrow> world \<Rightarrow> string list" where
  "bundles r w = filter (is_backup_name r) (children w (destination r))"

definition mtime_of :: "world \<Rightarrow> path \<Rightarrow> int" where
  "mtime_of w p = (case lookup w p of None \<Rightarrow> 0 | Some (Dir t) \<Rightarrow> t | Some (File c t) \<Rightarrow> t)"

text \<open>
  An archive entry for the file \<open>p\<close>: named by the path of \<open>p\<close> relative to the staging
  root, and holding the content of \<open>p\<close> (unless \<open>p\<close> is the archive being written).
\<close>

definition archived :: "world \<Rightarrow> path \<Rightarrow> path \<Rightarrow> path \<Rightarrow> path \<times> content \<Rightarrow> bool" where
  "archived w stg out p e =
     (fst e = relpath p stg \<and> (p \<noteq> out \<longrightarrow> (\<exists>t. lookup w p = Some (File (snd e) t))))"

section \<open>Observing removals\<close>

text \<open>
  The system calls that remove or list: \<^verbatim>\<open>shutil.rmtree\<close>, \<^verbatim>\<open>os.listdir\<close> and
  \<^verbatim>\<open>os.remove\<close>. The script makes them at four places only: the staging setup, the lock
  release, the staging removal of \<^verbatim>\<open>_cleanup\<close> and its retention pass.
\<close>

fun is_cleaning :: "event \<Rightarrow> bool" where
  "is_cleaning (Sys (OpRmtree p)) = True"
| "is_cleaning (Sys (OpListdir p)) = True"
| "is_cleaning (Sys (OpRemove p)) = True"
| "is_cleaning e = False"

definition destructive :: "world \<Rightarrow> event list" where
  "destructive w = filter is_cleaning (trace w)"

definition new_ops :: "world \<Rightarrow> world \<Rightarrow> event list" where
  "new_ops w w' = drop (length (destructive w)) (destructive w')"

text \<open>
  An action that makes none of these calls, leaves the oracle alone and leaves every
  file a file.
\<close>

definition steady :: "'a io \<Rightarrow> bool" where
  "steady m =
     (\<forall>w. io_error (snd (m w)) = io_error w \<and>
          destructive (snd (m w)) = destructive w \<and>
          (\<forall>p. isfile w p \<longrightarrow> isfile (snd (m w)) p))"

text \<open>The demo world with a file where the staging directory should be.\<close>

definition staging_is_file_world :: world where
  "staging_is_file_world =
     demo_world\<lparr>entries := filter (\<lambda>e. \<not> prefix [''stg''] (fst e)) (entries demo_world) @
        [([''stg''], File (Raw ''not a directory'') 1)]\<rparr>"

text \<open>The demo world when the lock marker cannot be removed.\<close>

definition lock_stuck_world :: world where
  "lock_stuck_world =
     demo_world\<lparr>io_error := (\<lambda>op. op = OpRemove [''dst'', ''.backup.lock''])\<rparr>"

section \<open>What the calls leave unchanged\<close>

lemma world_emit [simp]:
  "entries (emit e w) = entries w" "io_error (emit e w) = io_error w"
  "clock (emit e w) = clock w" "timestamp (emit e w) = timestamp w" "pid (emit e w) = pid w"
  "trace (emit e w) = trace w @ [e]"
  by (simp_all add: emit_def)

lemma world_logging [simp]:
  "entries (logging l m w) = entries w" "io_error (logging l m w) = io_error w"
  "clock (logging l m w) = clock w" "timestamp (logging l m w) = timestamp w"
  "pid (logging l m w) = pid w" "trace (logging l m w) = trace w @ [Log l m]"
  by (simp_all add: logging_def)

lemma lookup_emit [simp]: "lookup (emit e w) = lookup w"
  by (simp add: lookup_def fun_eq_iff)

lemma lookup_logging [simp]: "lookup (logging l m w) = lookup w"
  by (simp add: lookup_def fun_eq_iff)

lemma tests_emit [simp]:
  "exists (emit e w) p = exists w p" "isdir (emit e w) p = isdir w p"
  "isfile (emit e w) p = isfile w p"
  by (simp_all add: exists_def isdir_def isfile_def)

lemma tests_logging [simp]:
  "exists (logging l m w) p = exists w p" "isdir (logging l m w) p = isdir w p"
  "isfile (logging l m w) p = isfile w p"
  by (simp_all add: logging_def)

section \<open>The methods a run enters\<close>

lemma enters_append [simp]: "enters (xs @ ys) = enters xs @ enters ys"
  by (induction xs rule: enters.induct) simp_all

lemma calls_emit [simp]:
  "calls (emit (Enter f) w) = calls w @ [f]"
  "calls (emit (Log l m) w) = calls w"
  "calls (emit (Sys op) w) = calls w"
  by (simp_all add: calls_def)

lemma calls_logging [simp]: "calls (logging l m w) = calls w"
  by (simp add: logging_def)

lemma calls_put [simp]: "calls (put p n w) = calls w"
  by (simp add: calls_def put_def)

lemma calls_unlink [simp]: "calls (unlink p w) = calls w"
  by (simp add: calls_def unlink_def)

lemma calls_entries_update [simp]: "calls (w\<lparr>entries := es\<rparr>) = calls w"
  by (simp add: calls_def)

lemma quietD: "quiet m \<Longrightarrow> m w = (res, w') \<Longrightarrow> calls w' = calls w"
  by (metis quiet_def snd_conv)

lemma quiet_return [simp]: "quiet (return_io x)"
  by (simp add: quiet_def return_io_def)

lemma quiet_pure [simp]: "quiet (\<lambda>w. (x, w))"
  by (simp add: quiet_def)

lemma quiet_and_then: "quiet m \<Longrightarrow> (\<And>x. quiet (f x)) \<Longrightarrow> quiet (and_then m f)"
  by (auto simp: quiet_def and_then_def split: prod.splits sum.splits) (metis snd_conv)+

lemma quiet_attempt: "quiet k \<Longrightarrow> quiet (attempt op k)"
  by (simp add: quiet_def attempt_def Let_def)

lemma quiet_getsize [simp]: "quiet (getsize p)"
  unfolding getsize_def
  by (rule quiet_attempt) (simp add: quiet_def split: option.splits node.splits)

lemma quiet_getmtime [simp]: "quiet (getmtime p)"
  unfolding getmtime_def
  by (rule quiet_attempt) (simp add: quiet_def split: option.splits node.splits)

lemma quiet_open_write [simp]: "quiet (open_write p c)"
  unfolding open_write_def
  by (rule quiet_attempt) (simp add: quiet_def)

lemma quiet_os_remove [simp]: "quiet (os_remove p)"
  unfolding os_remove_def
  by (rule quiet_attempt) (simp add: quiet_def)

lemma quiet_rmtree [simp]: "quiet (rmtree p)"
  unfolding rmtree_def
  by (rule quiet_attempt) (simp add: quiet_def)

lemma calls_mkdirs: "calls (snd (mkdirs qs w)) = calls w"
  by (induction qs arbitrary: w) (simp_all split: option.splits node.splits)

lemma quiet_makedirs [simp]: "quiet (makedirs p)"
  unfolding makedirs_def
  by (rule quiet_attempt) (simp add: quiet_def calls_mkdirs)

lemma quiet_listdir [simp]: "quiet (listdir p)"
  unfolding listdir_def
  by (rule quiet_attempt) (simp add: quiet_def)

lemma quiet_copy2 [simp]: "quiet (copy2 p q)"
  unfolding copy2_def
  by (rule quiet_attempt) (simp add: quiet_def Let_def split: option.splits node.splits)

lemma quiet_zip_open [simp]: "quiet (zip_open p)"
  unfolding zip_open_def
  by (rule quiet_attempt) (simp add: quiet_def)

lemma quiet_zip_write [simp]: "quiet (zip_write out p a)"
  unfolding zip_write_def
  by (rule quiet_attempt) (simp add: quiet_def split: option.splits node.splits content.splits)

lemma quiet_sum_sizes [simp]: "quiet (sum_sizes fs)"
  by (induction fs) (simp_all add: quiet_and_then)

lemma quiet_getmtimes [simp]: "quiet (getmtimes d fs)"
  by (induction fs) (simp_all add: quiet_and_then)

lemma quiet_zip_write_all [simp]: "quiet (zip_write_all stg out fs)"
  by (induction fs) (simp_all add: quiet_and_then)

lemma calls_delete_backups: "calls (snd (delete_backups r bs w)) = calls w"
proof (induction bs arbitrary: w)
  case Nil
  then show ?case by simp
next
  case (Cons b bs)
  show ?case
  proof (cases "os_remove (destination r @ [b]) (logging INFO (MsgDeleting b) w)")
    case (Pair res w1)
    then have "calls w1 = calls w"
      using quietD [OF quiet_os_remove Pair] by simp
    with Pair Cons show ?thesis
      by (simp split: sum.splits)
  qed
qed

lemma quiet_delete_backups [simp]: "quiet (delete_backups r bs)"
  by (simp add: quiet_def calls_delete_backups)

lemma quiet_prune_backups [simp]: "quiet (prune_backups r)"
  unfolding prune_backups_def
  by (intro quiet_and_then) simp_all

lemma calls_get_files: "calls (snd (get_files ds w)) = calls w"
proof (induction ds arbitrary: w)
  case Nil
  then show ?case by simp
next
  case (Cons d ds)
  from Cons [of w] Cons [of "logging WARNING (MsgSourceMissing d) w"]
  show ?case by (auto split: prod.splits)
qed

lemma calls_get_files_to_backup:
  "calls (snd (get_files_to_backup r w)) = calls w @ [get_files_to_backup_f]"
  by (simp add: get_files_to_backup_def calls_get_files)

lemma quiet_copy_attempt [simp]: "quiet (copy_attempt r src)"
  unfolding copy_attempt_def Let_def
  by (intro quiet_and_then) simp_all

text \<open>A worker never raises: it returns success, or failure with no bytes and a log line.\<close>

lemma copy_worker_cases:
  assumes "copy_worker r src w = (res, w')"
  shows "(\<exists>n. res = Inr (True, n, src)) \<or>
         (res = Inr (False, 0, src) \<and> (\<exists>e. last (trace w') = Log ERROR (MsgCopyFail src e)))"
proof (cases "copy_attempt r src (emit (Enter copy_worker_f) w)")
  case (Pair a w1)
  show ?thesis
  proof (cases a)
    case (Inl e)
    with Pair assms show ?thesis
      by (auto simp: copy_worker_def)
  next
    case (Inr x)
    with Pair have "\<exists>n. x = (True, n, src)"
      by (auto simp: copy_attempt_def and_then_def return_io_def Let_def
               split: prod.splits sum.splits if_splits)
    with Pair Inr assms show ?thesis
      by (auto simp: copy_worker_def)
  qed
qed

lemma calls_copy_worker: "calls (snd (copy_worker r src w)) = calls w @ [copy_worker_f]"
proof (cases "copy_attempt r src (emit (Enter copy_worker_f) w)")
  case (Pair a w1)
  then have "calls w1 = calls w @ [copy_worker_f]"
    using quietD [OF quiet_copy_attempt Pair] by simp
  with Pair show ?thesis
    by (simp add: copy_worker_def split: sum.splits)
qed

lemma calls_submit_all:
  "calls (snd (submit_all r fs w)) = calls w @ replicate (length fs) copy_worker_f"
proof (induction fs arbitrary: w)
  case Nil
  then show ?case by simp
next
  case (Cons f fs)
  have "calls (snd (copy_worker r f w)) = calls w @ [copy_worker_f]"
    by (rule calls_copy_worker)
  with Cons show ?case
    by (simp split: prod.splits add: replicate_append_same)
       (metis snd_conv append.assoc append_Cons append_Nil)
qed

lemma submit_all_results:
  assumes "submit_all r fs w = (futures, w')"
  shows "\<exists>rs. results futures = Inr rs \<and> map (\<lambda>x. snd (snd x)) rs = fs \<and>
           (\<forall>x\<in>set rs. \<not> fst x \<longrightarrow> fst (snd x) = 0)"
  using assms
proof (induction fs arbitrary: w futures w')
  case Nil
  then show ?case by simp
next
  case (Cons f fs)
  obtain res w1 where cw: "copy_worker r f w = (res, w1)"
    by (cases "copy_worker r f w")
  obtain rs0 w2 where sa: "submit_all r fs w1 = (rs0, w2)"
    by (cases "submit_all r fs w1")
  from Cons.IH [OF sa] obtain rs where
    rs: "results rs0 = Inr rs" "map (\<lambda>x. snd (snd x)) rs = fs"
        "\<forall>x\<in>set rs. \<not> fst x \<longrightarrow> fst (snd x) = 0"
    by blast
  have "\<exists>x. res = Inr x \<and> snd (snd x) = f \<and> (\<not> fst x \<longrightarrow> fst (snd x) = 0)"
    using copy_worker_cases [OF cw] by fastforce
  then obtain x where x: "res = Inr x" "snd (snd x) = f" "\<not> fst x \<longrightarrow> fst (snd x) = 0"
    by blast
  from Cons.prems cw sa have "futures = res # rs0"
    by simp
  with x rs show ?case
    by simp
qed

lemma calls_copy_files_to_staging_parallel:
  "calls (snd (copy_files_to_staging_parallel r fs n w)) =
     calls w @ copy_files_to_staging_parallel_f #
       (if parallel_workers r = 0 then [] else replicate (length fs) copy_worker_f)"
proof -
  let ?w1 = "logging INFO (MsgCopying (length fs) n (parallel_workers r))
               (emit (Enter copy_files_to_staging_parallel_f) w)"
  let ?w2 = "if dry_run r then logging INFO MsgDryCopy ?w1 else ?w1"
  have c2: "calls ?w2 = calls w @ [copy_files_to_staging_parallel_f]"
    by simp
  show ?thesis
  proof (cases "parallel_workers r = 0")
    case True
    with c2 show ?thesis
      by (simp add: copy_files_to_staging_parallel_def Let_def)
  next
    case False
    then have "snd (copy_files_to_staging_parallel r fs n w) = snd (submit_all r fs ?w2)"
      by (simp add: copy_files_to_staging_parallel_def Let_def split: prod.splits)
    with False c2 calls_submit_all [of r fs ?w2] show ?thesis
      by simp
  qed
qed

lemma copy_files_to_staging_parallel_no_workers:
  "parallel_workers r = 0 \<Longrightarrow> fst (copy_files_to_staging_parallel r fs n w) = Inl ValueError"
  by (simp add: copy_files_to_staging_parallel_def Let_def)

lemma copy_files_to_staging_parallel_returns:
  assumes "0 < parallel_workers r"
    and "copy_files_to_staging_parallel r fs n w = (res, w')"
  shows "\<exists>rs. res = Inr rs \<and> map (\<lambda>x. snd (snd x)) rs = fs \<and>
           (\<forall>x\<in>set rs. \<not> fst x \<longrightarrow> fst (snd x) = 0)"
proof -
  let ?w1 = "logging INFO (MsgCopying (length fs) n (parallel_workers r))
               (emit (Enter copy_files_to_staging_parallel_f) w)"
  let ?w2 = "if dry_run r then logging INFO MsgDryCopy ?w1 else ?w1"
  obtain futures w3 where sa: "submit_all r fs ?w2 = (futures, w3)"
    by (cases "submit_all r fs ?w2")
  with assms have "res = results futures"
    by (auto simp: copy_files_to_staging_parallel_def Let_def split: if_splits)
  with submit_all_results [OF sa] show ?thesis
    by simp
qed

lemma calls_zip_staging_folder:
  "calls (snd (zip_staging_folder r out w)) = calls w @ [zip_staging_folder_f]"
proof (cases "dry_run r")
  case True
  then show ?thesis by (simp add: zip_staging_folder_def Let_def)
next
  case False
  let ?w1 = "logging INFO (MsgZipping out) (emit (Enter zip_staging_folder_f) w)"
  let ?m = "and_then (zip_open out)
              (\<lambda>u. zip_write_all (staging_dir r) out (walk_files ?w1 (staging_dir r)))"
  have q: "quiet ?m"
    by (intro quiet_and_then) simp_all
  obtain res w2 where m: "?m ?w1 = (res, w2)"
    by (cases "?m ?w1")
  from quietD [OF q m] have "calls w2 = calls w @ [zip_staging_folder_f]"
    by simp
  with False m show ?thesis
    by (simp add: zip_staging_folder_def Let_def split: sum.splits)
qed

lemma quiet_remove_staging_step [simp]: "quiet (remove_staging_step r)"
proof -
  have "calls (snd (remove_staging_step r w)) = calls w" for w
    using quiet_rmtree [of "staging_dir r"]
    by (simp add: remove_staging_step_def quiet_def)
  then show ?thesis
    by (simp add: quiet_def)
qed

lemma calls_cleanup: "calls (snd (cleanup r w)) = calls w @ [cleanup_f]"
proof -
  obtain r1 w1 where s1: "remove_staging_step r (emit (Enter cleanup_f) w) = (r1, w1)"
    by (cases "remove_staging_step r (emit (Enter cleanup_f) w)")
  then have c1: "calls w1 = calls w @ [cleanup_f]"
    using quietD [OF quiet_remove_staging_step s1] by simp
  obtain r2 w2 where s2: "prune_backups r (logging INFO (MsgChecking (retention r)) w1) = (r2, w2)"
    by (cases "prune_backups r (logging INFO (MsgChecking (retention r)) w1)")
  then have c2: "calls w2 = calls w1"
    using quietD [OF quiet_prune_backups s2] by simp
  from s1 s2 c1 c2 show ?thesis
    by (simp add: cleanup_def split: sum.splits)
qed

lemma calls_LockFile_enter:
  "calls (snd (LockFile_enter p w)) = calls w @ [LockFile_enter_f]"
  using quiet_open_write [of p "Raw (pid (emit (Enter LockFile_enter_f) w))"]
  by (simp add: LockFile_enter_def Let_def quiet_def)

lemma calls_LockFile_exit:
  "calls (snd (LockFile_exit p w)) = calls w @ [LockFile_exit_f]"
  using quiet_os_remove [of p]
  by (simp add: LockFile_exit_def Let_def quiet_def)

lemma LockFile_enter_logging:
  "fst (LockFile_enter p (logging l m w)) = fst (LockFile_enter p w)"
  by (simp add: LockFile_enter_def open_write_def attempt_def Let_def)

lemma calls_backup_body:
  "\<exists>cs. calls (snd (backup_body r w)) = calls w @ cs \<and> body_calls (parallel_workers r) cs"
proof -
  let ?m1 = "\<lambda>w. if exists w (staging_dir r) then rmtree (staging_dir r) w else (Inr (), w)"
  have q1: "quiet ?m1"
    using quiet_rmtree [of "staging_dir r"] by (simp add: quiet_def)
  obtain r1 w1 where s1: "?m1 w = (r1, w1)"
    by (cases "?m1 w")
  have c1: "calls w1 = calls w"
    using quietD [OF q1 s1] .
  obtain r2 w2 where s2: "makedirs (staging_dir r) w1 = (r2, w2)"
    by (cases "makedirs (staging_dir r) w1")
  have c2: "calls w2 = calls w"
    using quietD [OF quiet_makedirs s2] c1 by simp
  obtain fs w3 where s3: "get_files_to_backup r w2 = (fs, w3)"
    by (cases "get_files_to_backup r w2")
  have c3: "calls w3 = calls w @ [get_files_to_backup_f]"
    using calls_get_files_to_backup [of r w2] s3 c2 by simp
  obtain r4 w4 where s4: "sum_sizes fs w3 = (r4, w4)"
    by (cases "sum_sizes fs w3")
  have c4: "calls w4 = calls w @ [get_files_to_backup_f]"
    using quietD [OF quiet_sum_sizes s4] c3 by simp
  show ?thesis
  proof (cases "r1 = Inr () \<and> r2 = Inr ()")
    case False
    with s1 s2 c1 c2 have "calls (snd (backup_body r w)) = calls w"
      by (cases r1; cases r2) (auto simp: backup_body_def and_then_def)
    then show ?thesis
      by (simp add: body_calls_def)
  next
    case ok12: True
    show ?thesis
    proof (cases "fs = []")
      case True
      with ok12 s1 s2 s3 c3 have "calls (snd (backup_body r w)) = calls w @ [get_files_to_backup_f]"
        by (simp add: backup_body_def and_then_def)
      then show ?thesis
        by (simp add: body_calls_def)
    next
      case nonempty: False
      show ?thesis
      proof (cases r4)
        case (Inl e)
        with nonempty ok12 s1 s2 s3 s4 c4
        have "calls (snd (backup_body r w)) = calls w @ [get_files_to_backup_f]"
          by (simp add: backup_body_def and_then_def)
        then show ?thesis
          by (simp add: body_calls_def)
      next
        case (Inr total_size)
        obtain r5 w5 where s5: "copy_files_to_staging_parallel r fs total_size w4 = (r5, w5)"
          by (cases "copy_files_to_staging_parallel r fs total_size w4")
        have c5: "calls w5 = calls w @ get_files_to_backup_f #
                   copy_files_to_staging_parallel_f #
                   (if parallel_workers r = 0 then []
                    else replicate (length fs) copy_worker_f)"
          using calls_copy_files_to_staging_parallel [of r fs total_size w4] s5 c4 by simp
        show ?thesis
        proof (cases "parallel_workers r = 0")
          case True
          with copy_files_to_staging_parallel_no_workers [of r fs total_size w4] s5
          have "r5 = Inl ValueError"
            by simp
          with nonempty ok12 s1 s2 s3 s4 s5 Inr
          have "calls (snd (backup_body r w)) = calls w5"
            by (simp add: backup_body_def and_then_def)
          with c5 True show ?thesis
            by (simp add: body_calls_def)
        next
          case False
          then have pos: "0 < parallel_workers r"
            by simp
          from copy_files_to_staging_parallel_returns [OF pos s5] obtain rs where
            r5: "r5 = Inr rs"
            by blast
          have "calls (snd (backup_body r w)) = calls w5 @ [zip_staging_folder_f]"
            using nonempty ok12 s1 s2 s3 s4 s5 Inr r5
            by (simp add: backup_body_def and_then_def calls_zip_staging_folder)
          with c5 False show ?thesis
            by (auto simp: body_calls_def)
        qed
      qed
    qed
  qed
qed

lemma body_calls_no_exit:
  "body_calls k cs \<Longrightarrow> LockFile_exit_f \<notin> set cs \<and> cleanup_f \<notin> set cs"
  by (auto simp: body_calls_def)


text \<open>
  The calls of a whole run: when \<^verbatim>\<open>__enter__\<close> raises, only \<^verbatim>\<open>_cleanup\<close> follows; when
  it returns, the body, then \<^verbatim>\<open>__exit__\<close>, then \<^verbatim>\<open>_cleanup\<close>.
\<close>

lemma calls_run:
  assumes "run r w = (res, w')"
  shows "(fst (LockFile_enter (lock_path r) w) \<noteq> Inr () \<and>
            calls w' = calls w @ [LockFile_enter_f, cleanup_f]) \<or>
         (fst (LockFile_enter (lock_path r) w) = Inr () \<and>
            (\<exists>cs. body_calls (parallel_workers r) cs \<and>
               calls w' = calls w @ LockFile_enter_f # cs @ [LockFile_exit_f, cleanup_f]))"
proof -
  let ?w0 = "logging INFO MsgStart w"
  obtain r1 w1 where s1: "LockFile_enter (lock_path r) ?w0 = (r1, w1)"
    by (cases "LockFile_enter (lock_path r) ?w0")
  then have r1: "fst (LockFile_enter (lock_path r) w) = r1"
    using LockFile_enter_logging [of "lock_path r" INFO MsgStart w] by simp
  have c1: "calls w1 = calls w @ [LockFile_enter_f]"
    using calls_LockFile_enter [of "lock_path r" ?w0] s1 by simp
  obtain r2 w2 where s2: "backup_body r w1 = (r2, w2)"
    by (cases "backup_body r w1")
  from calls_backup_body [of r w1] s2 c1 obtain cs where
    cs: "body_calls (parallel_workers r) cs" "calls w2 = calls w @ LockFile_enter_f # cs"
    by auto
  obtain r3 w3 where s3: "LockFile_exit (lock_path r) w2 = (r3, w3)"
    by (cases "LockFile_exit (lock_path r) w2")
  have c3: "calls w3 = calls w @ LockFile_enter_f # cs @ [LockFile_exit_f]"
    using calls_LockFile_exit [of "lock_path r" w2] s3 cs by simp
  obtain rl wl where sl: "with_LockFile (lock_path r) (backup_body r) ?w0 = (rl, wl)"
    by (cases "with_LockFile (lock_path r) (backup_body r) ?w0")
  let ?w2 = "(case rl of Inl RuntimeError \<Rightarrow> logging ERROR (MsgExecError RuntimeError) wl
                        | Inl e \<Rightarrow> logging CRITICAL MsgFatal wl
                        | Inr u \<Rightarrow> wl)"
  have ch: "calls ?w2 = calls wl"
    by (simp split: sum.splits err.splits)
  have cw': "calls w' = calls wl @ [cleanup_f]"
  proof -
    have "calls (snd (run r w)) = calls (snd (cleanup r ?w2))"
      using sl by (simp add: run_def Let_def split: prod.splits sum.splits)
    with assms ch show ?thesis
      by (simp add: calls_cleanup)
  qed
  show ?thesis
  proof (cases r1)
    case (Inl e)
    with s1 sl have "wl = w1"
      by (simp add: with_LockFile_def)
    with Inl r1 c1 cw' show ?thesis
      by simp
  next
    case (Inr u)
    with s1 s2 s3 sl have "wl = w3"
      by (auto simp: with_LockFile_def split: sum.splits)
    with Inr r1 c3 cw' cs show ?thesis
      by auto
  qed
qed

section \<open>A file that cannot be copied does not stop the run\<close>




section \<open>Errors of the cleanup phase\<close>

lemma rmtree_raises:
  "rmtree p w = (Inl e, w') \<Longrightarrow> e = OSError \<and> w' = emit (Sys (OpRmtree p)) w"
  by (auto simp: rmtree_def attempt_def Let_def split: if_splits)

lemma remove_staging_step_raises:
  assumes "remove_staging_step r w = (Inl e, w')"
  shows "e = OSError \<and> \<not> dry_run r \<and> last (trace w') = Sys (OpRmtree (staging_dir r))"
proof -
  from assms have nd: "\<not> dry_run r" and
    rm: "rmtree (staging_dir r) (logging INFO (MsgCleaning (staging_dir r)) w) = (Inl e, w')"
    by (auto simp: remove_staging_step_def split: if_splits)
  from rmtree_raises [OF rm] nd show ?thesis
    by simp
qed

lemma cleanup_outcome:
  assumes "cleanup r w = (res, w')"
  shows "res = Inr () \<or>
         (res = Inl OSError \<and> \<not> dry_run r \<and> last (trace w') = Sys (OpRmtree (staging_dir r)))"
proof (cases "remove_staging_step r (emit (Enter cleanup_f) w)")
  case (Pair r1 w1)
  show ?thesis
  proof (cases r1)
    case (Inl e)
    with Pair assms have "res = Inl e" "w' = w1"
      by (simp_all add: cleanup_def)
    with remove_staging_step_raises [of r "emit (Enter cleanup_f) w" e w1] Pair Inl
    show ?thesis by simp
  next
    case (Inr u)
    with Pair assms show ?thesis
      by (auto simp: cleanup_def split: prod.splits sum.splits)
  qed
qed

lemma cleanup_absorbs:
  assumes "remove_staging_step r (emit (Enter cleanup_f) w) = (Inr (), w1)"
  shows "fst (cleanup r w) = Inr () \<and>
         (\<forall>e w2. prune_backups r (logging INFO (MsgChecking (retention r)) w1) = (Inl e, w2) \<longrightarrow>
            snd (cleanup r w) = logging ERROR (MsgPruneError e) w2)"
  using assms by (auto simp: cleanup_def split: prod.splits sum.splits)

lemma run_outcome:
  assumes "run r w = (res, w')"
  shows "(res = Inr () \<and> last (trace w') = Log INFO MsgFinished) \<or>
         (res = Inl OSError \<and> \<not> dry_run r \<and> last (trace w') = Sys (OpRmtree (staging_dir r)))"
proof -
  obtain rl wl where
    sl: "with_LockFile (lock_path r) (backup_body r) (logging INFO MsgStart w) = (rl, wl)"
    by (cases "with_LockFile (lock_path r) (backup_body r) (logging INFO MsgStart w)")
  let ?w2 = "(case rl of Inl RuntimeError \<Rightarrow> logging ERROR (MsgExecError RuntimeError) wl
                        | Inl e \<Rightarrow> logging CRITICAL MsgFatal wl
                        | Inr u \<Rightarrow> wl)"
  obtain rc wc where sc: "cleanup r ?w2 = (rc, wc)"
    by (cases "cleanup r ?w2")
  from cleanup_outcome [OF sc] sl sc assms show ?thesis
    by (auto simp: run_def Let_def)
qed

text \<open>
  Claim C8, as stated, fails: \<^verbatim>\<open>shutil.rmtree(self.staging_dir)\<close> stands before the
  \<^verbatim>\<open>try\<close> block of \<^verbatim>\<open>_cleanup\<close>. In a world where the staging tree cannot be removed,
  the error leaves \<^verbatim>\<open>_cleanup\<close> and \<^verbatim>\<open>run\<close>; the destination is never listed, so the
  three bundles all stay, and the last two log lines are not written.
\<close>

theorem staging_removal_error_escapes:
  "fst (run demo_runner stuck_staging_world) = Inl OSError \<and>
   last (trace (snd (run demo_runner stuck_staging_world))) = Sys (OpRmtree [''stg'']) \<and>
   Sys (OpListdir [''dst'']) \<notin> set (trace (snd (run demo_runner stuck_staging_world))) \<and>
   Log INFO MsgFinished \<notin> set (trace (snd (run demo_runner stuck_staging_world)))"
  by code_simp

text \<open>
  Claim C8, amended. A run ends in one of two ways: it returns normally, its last action
  the final log line; or it raises the error of the staging removal of \<^verbatim>\<open>_cleanup\<close>, its
  last action that \<^verbatim>\<open>rmtree\<close>. Whenever the staging removal of \<^verbatim>\<open>_cleanup\<close> does not
  raise, \<^verbatim>\<open>_cleanup\<close> returns normally, and an error of the listing, of a modification
  time or of a deletion is logged as its last action. When the lock was acquired,
  \<^verbatim>\<open>__exit__\<close> has been entered before \<^verbatim>\<open>_cleanup\<close>, so no error of the cleanup can block
  the release.
\<close>

theorem retention_errors_absorbed:
  assumes "run r w = (res, w')"
  shows "((res = Inr () \<and> last (trace w') = Log INFO MsgFinished) \<or>
          (res = Inl OSError \<and> \<not> dry_run r \<and>
           last (trace w') = Sys (OpRmtree (staging_dir r)))) \<and>
         (\<forall>v v1. remove_staging_step r (emit (Enter cleanup_f) v) = (Inr (), v1) \<longrightarrow>
            fst (cleanup r v) = Inr () \<and>
            (\<forall>e v2. prune_backups r (logging INFO (MsgChecking (retention r)) v1) = (Inl e, v2) \<longrightarrow>
               snd (cleanup r v) = logging ERROR (MsgPruneError e) v2)) \<and>
         (fst (LockFile_enter (lock_path r) w) = Inr () \<longrightarrow>
            (\<exists>cs. new_calls w w' = LockFile_enter_f # cs @ [LockFile_exit_f, cleanup_f]))"
proof (intro conjI)
  show "(res = Inr () \<and> last (trace w') = Log INFO MsgFinished) \<or>
          (res = Inl OSError \<and> \<not> dry_run r \<and>
           last (trace w') = Sys (OpRmtree (staging_dir r)))"
    by (rule run_outcome [OF assms])
next
  show "\<forall>v v1. remove_staging_step r (emit (Enter cleanup_f) v) = (Inr (), v1) \<longrightarrow>
            fst (cleanup r v) = Inr () \<and>
            (\<forall>e v2. prune_backups r (logging INFO (MsgChecking (retention r)) v1) = (Inl e, v2) \<longrightarrow>
               snd (cleanup r v) = logging ERROR (MsgPruneError e) v2)"
    using cleanup_absorbs by blast
next
  from calls_run [OF assms]
  show "fst (LockFile_enter (lock_path r) w) = Inr () \<longrightarrow>
            (\<exists>cs. new_calls w w' = LockFile_enter_f # cs @ [LockFile_exit_f, cleanup_f])"
    by (auto simp: new_calls_def)
qed

text \<open>
  In the world where the destination cannot be listed, the lock is acquired, the run
  returns normally, and \<^verbatim>\<open>_cleanup\<close> alone logs the listing error as its last action.
\<close>

theorem retention_errors_absorbed_witness:
  "fst (LockFile_enter (lock_path demo_runner) unlistable_world) = Inr () \<and>
   fst (run demo_runner unlistable_world) = Inr () \<and>
   last (trace (snd (run demo_runner unlistable_world))) = Log INFO MsgFinished \<and>
   (\<exists>cs. new_calls unlistable_world (snd (run demo_runner unlistable_world)) =
      LockFile_enter_f # cs @ [LockFile_exit_f, cleanup_f]) \<and>
   fst (cleanup demo_runner unlistable_world) = Inr () \<and>
   last (trace (snd (cleanup demo_runner unlistable_world))) = Log ERROR (MsgPruneError OSError)"
proof -
  let ?w' = "snd (run demo_runner unlistable_world)"
  let ?v1 = "snd (remove_staging_step demo_runner (emit (Enter cleanup_f) unlistable_world))"
  let ?v2 = "snd (prune_backups demo_runner
                (logging INFO (MsgChecking (retention demo_runner)) ?v1))"
  have rn: "run demo_runner unlistable_world = (fst (run demo_runner unlistable_world), ?w')"
    by simp
  have h: "fst (LockFile_enter (lock_path demo_runner) unlistable_world) = Inr ()"
    by code_simp
  have nl: "last (trace ?w') \<noteq> Sys (OpRmtree (staging_dir demo_runner))"
    by code_simp
  have "fst (remove_staging_step demo_runner (emit (Enter cleanup_f) unlistable_world)) = Inr ()"
    by code_simp
  then have s1: "remove_staging_step demo_runner (emit (Enter cleanup_f) unlistable_world) =
      (Inr (), ?v1)"
    by (simp add: prod_eq_iff)
  have "fst (prune_backups demo_runner
          (logging INFO (MsgChecking (retention demo_runner)) ?v1)) = Inl OSError"
    by code_simp
  then have s2: "prune_backups demo_runner
      (logging INFO (MsgChecking (retention demo_runner)) ?v1) = (Inl OSError, ?v2)"
    by (simp add: prod_eq_iff)
  from retention_errors_absorbed [OF rn] h nl s1 s2
  have "fst (run demo_runner unlistable_world) = Inr ()"
    and "last (trace ?w') = Log INFO MsgFinished"
    and "\<exists>cs. new_calls unlistable_world ?w' =
           LockFile_enter_f # cs @ [LockFile_exit_f, cleanup_f]"
    and "fst (cleanup demo_runner unlistable_world) = Inr ()"
    and "snd (cleanup demo_runner unlistable_world) = logging ERROR (MsgPruneError OSError) ?v2"
    by blast+
  with h show ?thesis
    by simp
qed

section \<open>A run that finds the lock held\<close>

text \<open>
  Claim C1 at a failing input. Another process holds the lock and has a file in staging.
  \<^verbatim>\<open>__enter__\<close> raises, nothing is enumerated, copied or archived, and the marker stays;
  but \<^verbatim>\<open>_cleanup\<close> in the \<^verbatim>\<open>finally\<close> clause runs all the same: the staging tree of the
  other process is removed and, with a retention of one, the older bundle is deleted.
\<close>

theorem held_lock_run_still_cleans_up:
  "fst (LockFile_enter (lock_path keep_one_runner) locked_world) = Inl RuntimeError \<and>
   new_calls locked_world (snd (run keep_one_runner locked_world)) =
     [LockFile_enter_f, cleanup_f] \<and>
   exists (snd (run keep_one_runner locked_world)) (lock_path keep_one_runner) \<and>
   exists locked_world [''stg'', ''old.txt''] \<and>
   \<not> exists (snd (run keep_one_runner locked_world)) [''stg'', ''old.txt''] \<and>
   \<not> exists (snd (run keep_one_runner locked_world)) [''stg''] \<and>
   exists locked_world [''dst'', ''nightly_2.zip''] \<and>
   \<not> exists (snd (run keep_one_runner locked_world)) [''dst'', ''nightly_2.zip''] \<and>
   Sys (OpRmtree [''stg'']) \<in> set (trace (snd (run keep_one_runner locked_world))) \<and>
   Sys (OpRemove [''dst'', ''nightly_2.zip'']) \<in>
     set (trace (snd (run keep_one_runner locked_world)))"
  by code_simp

section \<open>A dry run\<close>

text \<open>
  Claim C2 at a failing input. With the dry-run flag set, the run creates and removes the
  lock marker in the destination, removes the staging tree that it finds (with the file
  in it), creates the staging root again and a directory below it.
\<close>

theorem dry_run_changes_staging:
  "dry_run dry_runner \<and>
   lookup demo_world [''stg'', ''old.txt''] = Some (File (Raw ''old'') 5) \<and>
   lookup (snd (run dry_runner demo_world)) [''stg'', ''old.txt''] = None \<and>
   lookup demo_world [''stg''] = Some (Dir 0) \<and>
   lookup (snd (run dry_runner demo_world)) [''stg''] = Some (Dir 100) \<and>
   lookup demo_world [''stg'', ''sub''] = None \<and>
   lookup (snd (run dry_runner demo_world)) [''stg'', ''sub''] = Some (Dir 100) \<and>
   filter (\<lambda>e. case e of Sys (OpOpenW p) \<Rightarrow> True | Sys (OpRemove p) \<Rightarrow> True
                | Sys (OpRmtree p) \<Rightarrow> True | Sys (OpMakedirs p) \<Rightarrow> True | _ \<Rightarrow> False)
     (trace (snd (run dry_runner demo_world))) =
     [Sys (OpOpenW [''dst'', ''.backup.lock'']), Sys (OpRmtree [''stg'']),
      Sys (OpMakedirs [''stg'']), Sys (OpMakedirs [''stg'']),
      Sys (OpMakedirs [''stg'', ''sub'']), Sys (OpRemove [''dst'', ''.backup.lock''])]"
  by code_simp

section \<open>The order of release and cleanup\<close>

text \<open>
  Claim C4 at a failing input. In a run that acquires the lock and succeeds, the marker
  is removed when the \<^verbatim>\<open>with\<close> statement ends, before \<^verbatim>\<open>_cleanup\<close> is entered: the
  staging tree is removed and the old bundle deleted after the release, not before it.
\<close>

theorem lock_released_before_cleanup:
  "fst (LockFile_enter (lock_path demo_runner) demo_world) = Inr () \<and>
   dropWhile (\<lambda>e. e \<noteq> Enter LockFile_exit_f) (trace (snd (run demo_runner demo_world))) =
     [Enter LockFile_exit_f,
      Sys (OpRemove [''dst'', ''.backup.lock'']),
      Enter cleanup_f,
      Log INFO (MsgCleaning [''stg'']),
      Sys (OpRmtree [''stg'']),
      Log INFO (MsgChecking 2),
      Sys (OpListdir [''dst'']),
      Sys (OpGetmtime [''dst'', ''nightly_1.zip'']),
      Sys (OpGetmtime [''dst'', ''nightly_2.zip'']),
      Sys (OpGetmtime [''dst'', ''nightly_20260101_000000.zip'']),
      Log INFO (MsgDeleting ''nightly_2.zip''),
      Sys (OpRemove [''dst'', ''nightly_2.zip'']),
      Log INFO MsgElapsed,
      Log INFO MsgFinished]"
  by code_simp

section \<open>An archive that fails half way\<close>

text \<open>
  Claim C10. In the world where the second staged file cannot be read, the archive is
  opened, the first file is written, the second write raises. The run goes on to
  \<^verbatim>\<open>_cleanup\<close>; the bundle with its single entry stays in the destination, its name passes
  the test of the retention pass, its modification time is read there, and with the two
  bundles found before it makes three, so that the oldest complete bundle is deleted.
\<close>

theorem partial_bundle_remains_and_counts:
  "Sys (OpZipOpen [''dst'', ''nightly_20260101_000000.zip'']) \<in>
     set (trace (snd (run demo_runner zip_fails_world))) \<and>
   Log CRITICAL MsgFatal \<in> set (trace (snd (run demo_runner zip_fails_world))) \<and>
   Log INFO MsgZipDone \<notin> set (trace (snd (run demo_runner zip_fails_world))) \<and>
   walk_files (snd (backup_body demo_runner
       (snd (LockFile_enter (lock_path demo_runner) zip_fails_world)))) [''stg''] =
     [[''stg'', ''a.txt''], [''stg'', ''sub'', ''b.txt'']] \<and>
   lookup (snd (run demo_runner zip_fails_world)) [''dst'', ''nightly_20260101_000000.zip''] =
     Some (File (Archive [([''a.txt''], Raw ''hello'')]) 100) \<and>
   is_backup_name demo_runner ''nightly_20260101_000000.zip'' \<and>
   Sys (OpGetmtime [''dst'', ''nightly_20260101_000000.zip'']) \<in>
     set (trace (snd (run demo_runner zip_fails_world))) \<and>
   exists zip_fails_world [''dst'', ''nightly_2.zip''] \<and>
   \<not> exists (snd (run demo_runner zip_fails_world)) [''dst'', ''nightly_2.zip'']"
  by code_simp

section \<open>The file system after the calls\<close>

lemma world_put [simp]:
  "io_error (put p n w) = io_error w" "clock (put p n w) = clock w"
  "timestamp (put p n w) = timestamp w" "pid (put p n w) = pid w" "trace (put p n w) = trace w"
  "entries (put p n w) = AList.update p n (entries w)"
  by (simp_all add: put_def)

lemma world_unlink [simp]:
  "io_error (unlink p w) = io_error w" "clock (unlink p w) = clock w"
  "timestamp (unlink p w) = timestamp w" "pid (unlink p w) = pid w"
  "trace (unlink p w) = trace w" "entries (unlink p w) = AList.delete p (entries w)"
  by (simp_all add: unlink_def)

lemma lookup_put: "lookup (put p n w) q = (if q = p then Some n else lookup w q)"
  by (simp add: lookup_def update_conv')

lemma lookup_unlink: "lookup (unlink p w) q = (if q = p then None else lookup w q)"
  by (simp add: lookup_def delete_conv')




lemma copy2_target_emit [simp]: "copy2_target (emit e w) src dst = copy2_target w src dst"
  by (simp add: copy2_target_def)




lemma relpath_nonempty [simp]: "relpath p c \<noteq> []"
  by (simp add: relpath_def Let_def)



lemma longest_common_prefix_of_prefix:
  "prefix c p \<Longrightarrow> longest_common_prefix p c = c"
  by (induction p c rule: longest_common_prefix.induct) auto

lemma relpath_below:
  assumes "prefix c p" "p \<noteq> c"
  shows "relpath p c = drop (length c) p" "c @ relpath p c = p" "relpath p c \<noteq> []"
proof -
  from assms obtain s where s: "p = c @ s" "s \<noteq> []"
    by (auto simp: prefix_def)
  with assms(1) show "relpath p c = drop (length c) p"
    by (simp add: relpath_def Let_def longest_common_prefix_of_prefix)
  with s show "c @ relpath p c = p" "relpath p c \<noteq> []"
    by simp_all
qed

section \<open>Where a copied file lands\<close>




section \<open>What the archive holds\<close>

lemma zip_open_returns:
  assumes "zip_open out w = (Inr u, w1)"
  shows "lookup w1 out = Some (File (Archive []) (clock w)) \<and>
         (\<forall>p. p \<noteq> out \<longrightarrow> lookup w1 p = lookup w p)"
  using assms
  by (auto simp: zip_open_def attempt_def Let_def lookup_put split: if_splits)

lemma zip_write_returns:
  assumes "zip_write out f a w = (Inr u, w1)"
  shows "\<exists>c tf es t. lookup w f = Some (File c tf) \<and> lookup w out = Some (File (Archive es) t) \<and>
           lookup w1 out = Some (File (Archive (es @ [(a, c)])) t) \<and>
           (\<forall>p. p \<noteq> out \<longrightarrow> lookup w1 p = lookup w p)"
  using assms
  by (auto simp: zip_write_def attempt_def Let_def lookup_put
           split: if_splits option.splits node.splits content.splits)

lemma zip_write_all_returns:
  assumes "zip_write_all stg out files w = (Inr u, w')"
    and "lookup w out = Some (File (Archive es0) t)"
  shows "\<exists>es. lookup w' out = Some (File (Archive (es0 @ es)) t) \<and>
           (\<forall>p. p \<noteq> out \<longrightarrow> lookup w' p = lookup w p) \<and>
           list_all2 (archived w stg out) files es"
  using assms
proof (induction files arbitrary: w es0)
  case Nil
  then show ?case
    by (simp add: return_io_def)
next
  case (Cons f files)
  from Cons.prems(1) obtain w1 where
    zw: "zip_write out f (relpath f stg) w = (Inr (), w1)" and
    rest: "zip_write_all stg out files w1 = (Inr u, w')"
    by (auto simp: and_then_def split: prod.splits sum.splits)
  from zip_write_returns [OF zw] Cons.prems(2) obtain c tf where
    f: "lookup w f = Some (File c tf)" and
    out1: "lookup w1 out = Some (File (Archive (es0 @ [(relpath f stg, c)])) t)" and
    same1: "\<forall>p. p \<noteq> out \<longrightarrow> lookup w1 p = lookup w p"
    by auto
  from Cons.IH [OF rest out1] obtain es where
    out': "lookup w' out = Some (File (Archive ((es0 @ [(relpath f stg, c)]) @ es)) t)" and
    same': "\<forall>p. p \<noteq> out \<longrightarrow> lookup w' p = lookup w1 p" and
    all: "list_all2 (archived w1 stg out) files es"
    by blast
  have "archived w1 stg out p e = archived w stg out p e" for p e
    using same1 by (auto simp: archived_def)
  with all have all': "list_all2 (archived w stg out) files es"
    by (simp add: list_all2_conv_all_nth)
  have "archived w stg out f (relpath f stg, c)"
    using f by (simp add: archived_def)
  with all' have "list_all2 (archived w stg out) (f # files) ((relpath f stg, c) # es)"
    by simp
  with out' same' same1 show ?case
    by (intro exI [of _ "(relpath f stg, c) # es"]) simp
qed

lemma isfile_in_entries: "isfile w p \<Longrightarrow> p \<in> fst ` set (entries w)"
  by (auto simp: isfile_def lookup_def split: option.splits dest: map_of_SomeD intro: rev_image_eqI)

lemma set_walk_files: "set (walk_files w d) = {p. strict_prefix d p \<and> isfile w p}"
  by (auto simp: walk_files_def dest: isfile_in_entries)

lemma distinct_walk_files: "distinct (walk_files w d)"
  by (simp add: walk_files_def)

text \<open>
  Claim C9. When the archive step of a real run returns normally, the output path holds
  one archive. Its entry names are the paths, relative to the staging root, of the files
  that \<^verbatim>\<open>os.walk\<close> found below the staging root before the step, in that order and
  each once: exactly the non-empty relative paths of the files below the root, so that
  the root itself has no entry. Every entry holds the content of its file (the archive
  itself apart, should the output path lie in staging).
\<close>

theorem archive_holds_the_staged_files:
  assumes nd: "\<not> dry_run r"
    and zs: "zip_staging_folder r out w = (Inr (), w')"
  shows "\<exists>es t.
           lookup w' out = Some (File (Archive es) t) \<and>
           map fst es = map (drop (length (staging_dir r))) (walk_files w (staging_dir r)) \<and>
           distinct (map fst es) \<and>
           fst ` set es = {a. a \<noteq> [] \<and> isfile w (staging_dir r @ a)} \<and>
           (\<forall>e\<in>set es. staging_dir r @ fst e \<noteq> out \<longrightarrow>
              (\<exists>t'. lookup w (staging_dir r @ fst e) = Some (File (snd e) t')))"
proof -
  let ?stg = "staging_dir r"
  let ?w1 = "logging INFO (MsgZipping out) (emit (Enter zip_staging_folder_f) w)"
  let ?files = "walk_files w ?stg"
  have wf: "walk_files ?w1 ?stg = ?files"
    by (simp add: walk_files_def)
  from zs nd obtain w2 w3 where
    zo: "zip_open out ?w1 = (Inr (), w2)" and
    za: "zip_write_all ?stg out ?files w2 = (Inr (), w3)" and
    w': "w' = logging INFO MsgZipDone w3"
    by (auto simp: zip_staging_folder_def Let_def and_then_def wf split: prod.splits sum.splits)
  from zip_open_returns [OF zo] have
    out2: "lookup w2 out = Some (File (Archive []) (clock w))" and
    same2: "\<forall>p. p \<noteq> out \<longrightarrow> lookup w2 p = lookup w p"
    by simp_all
  from zip_write_all_returns [OF za out2] obtain es where
    out3: "lookup w3 out = Some (File (Archive es) (clock w))" and
    all: "list_all2 (archived w2 ?stg out) ?files es"
    by auto
  have rel: "relpath p ?stg = drop (length ?stg) p" if "p \<in> set ?files" for p
    using that relpath_below(1) [of ?stg p] by (auto simp: set_walk_files strict_prefix_def)
  have names: "map fst es = map (drop (length ?stg)) ?files"
  proof (rule nth_equalityI)
    show "length (map fst es) = length (map (drop (length ?stg)) ?files)"
      using all by (simp add: list_all2_lengthD)
  next
    fix i assume "i < length (map fst es)"
    with all have i: "i < length ?files" "archived w2 ?stg out (?files ! i) (es ! i)"
      by (auto simp: list_all2_conv_all_nth)
    then show "map fst es ! i = map (drop (length ?stg)) ?files ! i"
      using all rel [of "?files ! i"] by (simp add: archived_def list_all2_lengthD)
  qed
  have inj: "inj_on (drop (length ?stg)) (set ?files)"
  proof (rule inj_onI)
    fix p q assume "p \<in> set ?files" "q \<in> set ?files"
      and eq: "drop (length ?stg) p = drop (length ?stg) q"
    then obtain a b where "p = ?stg @ a" "q = ?stg @ b"
      by (auto simp: set_walk_files strict_prefix_def prefix_def)
    with eq show "p = q" by simp
  qed
  have dist: "distinct (map fst es)"
    unfolding names by (simp add: distinct_map distinct_walk_files inj)
  have img: "fst ` set es = {a. a \<noteq> [] \<and> isfile w (?stg @ a)}"
  proof -
    have "fst ` set es = set (map fst es)" by simp
    also have "\<dots> = drop (length ?stg) ` set ?files"
      unfolding names by simp
    also have "\<dots> = {a. a \<noteq> [] \<and> isfile w (?stg @ a)}"
    proof (intro set_eqI iffI)
      fix a assume "a \<in> drop (length ?stg) ` set ?files"
      then obtain p where "strict_prefix ?stg p" "isfile w p" "a = drop (length ?stg) p"
        by (auto simp: set_walk_files)
      then show "a \<in> {a. a \<noteq> [] \<and> isfile w (?stg @ a)}"
        by (auto simp: strict_prefix_def prefix_def)
    next
      fix a assume "a \<in> {a. a \<noteq> [] \<and> isfile w (?stg @ a)}"
      then have "?stg @ a \<in> set ?files" "drop (length ?stg) (?stg @ a) = a"
        by (auto simp: set_walk_files strict_prefix_def)
      then show "a \<in> drop (length ?stg) ` set ?files"
        by (metis image_eqI)
    qed
    finally show ?thesis .
  qed
  have cont: "\<exists>t'. lookup w (?stg @ fst e) = Some (File (snd e) t')"
    if "e \<in> set es" "?stg @ fst e \<noteq> out" for e
  proof -
    from that(1) obtain i where i: "i < length es" "es ! i = e"
      by (auto simp: in_set_conv_nth)
    with all have il: "i < length ?files" and ar: "archived w2 ?stg out (?files ! i) e"
      by (auto simp: list_all2_conv_all_nth)
    from il have mem: "?files ! i \<in> set ?files" by simp
    then have "strict_prefix ?stg (?files ! i)"
      by (simp add: set_walk_files)
    then have "?stg @ drop (length ?stg) (?files ! i) = ?files ! i"
      by (auto simp: strict_prefix_def prefix_def)
    with ar rel [OF mem] have p: "?stg @ fst e = ?files ! i"
      by (simp add: archived_def)
    with that(2) ar same2 show ?thesis
      by (auto simp: archived_def)
  qed
  from out3 w' names dist img cont show ?thesis
    by (intro exI [of _ es] exI [of _ "clock w"]) simp
qed

text \<open>The staging tree of the demo world, with its one file, archived.\<close>

theorem archive_holds_the_staged_files_witness:
  "\<not> dry_run demo_runner \<and>
   fst (zip_staging_folder demo_runner [''dst'', ''b.zip''] demo_world) = Inr () \<and>
   (\<exists>es t. lookup (snd (zip_staging_folder demo_runner [''dst'', ''b.zip''] demo_world))
              [''dst'', ''b.zip''] = Some (File (Archive es) t) \<and>
      map fst es = [[''old.txt'']] \<and> (\<forall>e\<in>set es. snd e = Raw ''old''))"
proof -
  let ?out = "[''dst'', ''b.zip'']"
  let ?w' = "snd (zip_staging_folder demo_runner ?out demo_world)"
  have nd: "\<not> dry_run demo_runner"
    by code_simp
  have f: "fst (zip_staging_folder demo_runner ?out demo_world) = Inr ()"
    by code_simp
  then have zs: "zip_staging_folder demo_runner ?out demo_world = (Inr (), ?w')"
    by (simp add: prod_eq_iff)
  have names: "map (drop (length (staging_dir demo_runner)))
      (walk_files demo_world (staging_dir demo_runner)) = [[''old.txt'']]"
    by code_simp
  have stg: "staging_dir demo_runner @ [''old.txt''] \<noteq> ?out"
    by code_simp
  have lk: "lookup demo_world (staging_dir demo_runner @ [''old.txt'']) =
      Some (File (Raw ''old'') 5)"
    by code_simp
  from archive_holds_the_staged_files [OF nd zs] obtain es t where
    out: "lookup ?w' ?out = Some (File (Archive es) t)" and
    nm0: "map fst es = map (drop (length (staging_dir demo_runner)))
            (walk_files demo_world (staging_dir demo_runner))" and
    ct: "\<forall>e\<in>set es. staging_dir demo_runner @ fst e \<noteq> ?out \<longrightarrow>
           (\<exists>t'. lookup demo_world (staging_dir demo_runner @ fst e) = Some (File (snd e) t'))"
    by (elim exE conjE)
  from nm0 names have nm: "map fst es = [[''old.txt'']]"
    by simp
  have ct': "snd e = Raw ''old''" if "e \<in> set es" for e
  proof -
    from that have "fst e \<in> set (map fst es)"
      by simp
    with nm have "fst e = [''old.txt'']"
      by simp
    with ct that stg lk show ?thesis
      by auto
  qed
  have "\<exists>es t. lookup ?w' ?out = Some (File (Archive es) t) \<and>
      map fst es = [[''old.txt'']] \<and> (\<forall>e\<in>set es. snd e = Raw ''old'')"
    using out nm ct' by (intro exI [of _ es] exI [of _ t]) simp
  with nd f show ?thesis
    by (intro conjI)
qed

section \<open>Retention\<close>

lemma listdir_returns:
  "\<not> io_error w (OpListdir d) \<Longrightarrow> isdir w d \<Longrightarrow>
     listdir d w = (Inr (children w d), emit (Sys (OpListdir d)) w)"
  by (simp add: listdir_def attempt_def Let_def children_def)

lemma children_emit [simp]: "children (emit e w) d = children w d"
  by (simp add: children_def)

lemma children_logging [simp]: "children (logging l m w) d = children w d"
  by (simp add: children_def)

lemma mtime_of_emit [simp]: "mtime_of (emit e w) p = mtime_of w p"
  by (simp add: mtime_of_def)

lemma getmtime_returns:
  "\<not> io_error w (OpGetmtime p) \<Longrightarrow> exists w p \<Longrightarrow>
     getmtime p w = (Inr (mtime_of w p), emit (Sys (OpGetmtime p)) w)"
  by (auto simp: getmtime_def attempt_def Let_def mtime_of_def exists_def
           split: option.splits node.splits)

lemma getmtimes_returns:
  assumes "\<forall>op. \<not> io_error w op" "\<forall>f\<in>set fs. exists w (d @ [f])"
  shows "\<exists>w'. getmtimes d fs w = (Inr (map (\<lambda>f. (f, mtime_of w (d @ [f]))) fs), w') \<and>
           entries w' = entries w \<and> io_error w' = io_error w"
  using assms
proof (induction fs arbitrary: w)
  case Nil
  show ?case by (simp add: return_io_def)
next
  case (Cons f fs)
  let ?w1 = "emit (Sys (OpGetmtime (d @ [f]))) w"
  from Cons.prems have g: "getmtime (d @ [f]) w = (Inr (mtime_of w (d @ [f])), ?w1)"
    by (simp add: getmtime_returns)
  from Cons.prems have "\<forall>op. \<not> io_error ?w1 op" "\<forall>f\<in>set fs. exists ?w1 (d @ [f])"
    by auto
  from Cons.IH [OF this] obtain w' where
    r: "getmtimes d fs ?w1 = (Inr (map (\<lambda>f. (f, mtime_of ?w1 (d @ [f]))) fs), w')"
      "entries w' = entries w" "io_error w' = io_error w"
    by auto
  with g show ?case
    by (simp add: and_then_def return_io_def)
qed

lemma os_remove_returns:
  "\<not> io_error w (OpRemove p) \<Longrightarrow> isfile w p \<Longrightarrow>
     os_remove p w = (Inr (), unlink p (emit (Sys (OpRemove p)) w))"
  by (simp add: os_remove_def attempt_def Let_def)

lemma isfile_unlink: "q \<noteq> p \<Longrightarrow> isfile (unlink p w) q = isfile w q"
  by (simp add: isfile_def lookup_unlink)

lemma delete_backups_returns:
  assumes "\<not> dry_run r" "\<forall>op. \<not> io_error w op" "distinct ds"
    "\<forall>f\<in>set ds. isfile w (destination r @ [f])"
  shows "\<exists>w'. delete_backups r ds w = (Inr (), w') \<and>
           entries w' =
             filter (\<lambda>e. fst e \<notin> (\<lambda>f. destination r @ [f]) ` set ds) (entries w)"
  using assms
proof (induction ds arbitrary: w)
  case Nil
  then show ?case by simp
next
  case (Cons d ds)
  let ?p = "destination r @ [d]"
  let ?w0 = "logging INFO (MsgDeleting d) w"
  let ?w1 = "unlink ?p (emit (Sys (OpRemove ?p)) ?w0)"
  from Cons.prems have rm: "os_remove ?p ?w0 = (Inr (), ?w1)"
    by (simp add: os_remove_returns)
  have "isfile ?w1 (destination r @ [f])" if "f \<in> set ds" for f
  proof -
    from that Cons.prems(3) have "destination r @ [f] \<noteq> ?p"
      by auto
    with that Cons.prems(4) show ?thesis
      by (simp add: isfile_unlink)
  qed
  then have "\<forall>f\<in>set ds. isfile ?w1 (destination r @ [f])"
    by blast
  moreover from Cons.prems have "\<forall>op. \<not> io_error ?w1 op" "distinct ds"
    by auto
  ultimately obtain w' where
    r: "delete_backups r ds ?w1 = (Inr (), w')"
      "entries w' = filter (\<lambda>e. fst e \<notin> (\<lambda>f. destination r @ [f]) ` set ds) (entries ?w1)"
    using Cons.IH [OF Cons.prems(1)] by blast
  have "entries ?w1 = filter (\<lambda>e. fst e \<noteq> ?p) (entries w)"
    by (simp add: AList.delete_eq case_prod_unfold) (metis (mono_tags, lifting) filter_cong)
  with r Cons.prems(1) rm show ?case
    by (auto intro!: filter_cong)
qed

lemma children_after_delete:
  assumes "entries w' = filter (\<lambda>e. fst e \<notin> (\<lambda>f. d @ [f]) ` S) (entries w)"
  shows "children w' d = filter (\<lambda>n. n \<notin> S) (children w d)"
proof -
  have eq: "(fst e \<notin> (\<lambda>f. d @ [f]) ` S) = (last (fst e) \<notin> S)"
    if "fst e \<noteq> [] \<and> butlast (fst e) = d" for e :: "path \<times> node"
  proof -
    from that have "fst e = d @ [last (fst e)]"
      by (metis append_butlast_last_id)
    then show ?thesis
      by (metis (no_types, lifting) image_iff last_snoc)
  qed
  let ?C = "\<lambda>e :: path \<times> node. fst e \<noteq> [] \<and> butlast (fst e) = d"
  let ?g = "\<lambda>e :: path \<times> node. last (fst e)"
  have "filter ?C (filter (\<lambda>e. fst e \<notin> (\<lambda>f. d @ [f]) ` S) (entries w)) =
        filter (\<lambda>e. ?g e \<notin> S) (filter ?C (entries w))"
    using eq by (auto simp: filter_filter intro!: filter_cong)
  then have "children w' d = remdups (map ?g (filter (\<lambda>e. ?g e \<notin> S) (filter ?C (entries w))))"
    by (simp only: children_def assms)
  also have "map ?g (filter (\<lambda>e. ?g e \<notin> S) (filter ?C (entries w))) =
             filter (\<lambda>n. n \<notin> S) (map ?g (filter ?C (entries w)))"
    by (simp add: filter_map comp_def)
  also have "remdups \<dots> = filter (\<lambda>n. n \<notin> S) (children w d)"
    by (simp only: remdups_filter children_def)
  finally show ?thesis .
qed

lemma map_of_filter_keys:
  "map_of (filter (\<lambda>e. fst e \<notin> D) es) p = (if p \<in> D then None else map_of es p)"
  by (induction es) auto

lemma sorted_take_le_drop:
  assumes "sorted (map f xs)" "x \<in> set (take k xs)" "y \<in> set (drop k xs)"
  shows "f x \<le> f y"
proof -
  have "sorted (map f (take k xs) @ map f (drop k xs))"
    using assms(1) by (metis append_take_drop_id map_append)
  with assms(2,3) show ?thesis
    by (auto simp: sorted_append)
qed

lemma to_delete_take:
  "1 \<le> retention r \<Longrightarrow>
     to_delete r keyed = take (length keyed - nat (retention r)) (map fst (sort_key snd keyed))"
  by (simp add: to_delete_def slice_to_def nat_diff_distrib')

lemma distinct_children [simp]: "distinct (children w d)"
  by (simp add: children_def)

lemma distinct_bundles [simp]: "distinct (bundles r w)"
  by (simp add: bundles_def)

lemma isfile_exists: "isfile w p \<Longrightarrow> exists w p"
  by (auto simp: isfile_def exists_def split: option.splits)

lemma same_entries:
  assumes "entries w' = entries w"
  shows "lookup w' = lookup w" "isfile w' p = isfile w p" "children w' d = children w d"
  using assms by (simp_all add: lookup_def isfile_def children_def fun_eq_iff)

lemma length_filter_out:
  assumes "distinct xs" "distinct ds" "set ds \<subseteq> set xs"
  shows "length (filter (\<lambda>n. n \<notin> set ds) xs) = length xs - length ds"
proof -
  have "length (filter (\<lambda>n. n \<in> set ds) xs) = card ({x. x \<in> set ds} \<inter> set xs)"
    using assms(1) by (rule distinct_length_filter)
  also have "{x. x \<in> set ds} \<inter> set xs = set ds"
    using assms(3) by auto
  also have "card (set ds) = length ds"
    using assms(2) by (rule distinct_card)
  finally have "length (filter (\<lambda>n. n \<in> set ds) xs) = length ds" .
  with sum_length_filter_compl [of "\<lambda>n. n \<in> set ds" xs] show ?thesis
    by simp
qed

text \<open>What the retention pass does when nothing fails.\<close>

lemma prune_backups_returns:
  assumes R: "1 \<le> retention r"
    and nd: "\<not> dry_run r"
    and ok: "\<forall>op. \<not> io_error w op"
    and dir: "isdir w (destination r)"
    and files: "\<forall>f\<in>set (bundles r w). isfile w (destination r @ [f])"
  defines "keyed \<equiv> map (\<lambda>f. (f, mtime_of w (destination r @ [f]))) (bundles r w)"
  defines "dels \<equiv> take (length (bundles r w) - nat (retention r)) (map fst (sort_key snd keyed))"
  shows "\<exists>w'. prune_backups r w = (Inr (), w') \<and>
           entries w' =
             filter (\<lambda>e. fst e \<notin> (\<lambda>f. destination r @ [f]) ` set dels) (entries w)"
proof -
  let ?dest = "destination r"
  let ?w1 = "emit (Sys (OpListdir ?dest)) w"
  from ok dir have ld: "listdir ?dest w = (Inr (children w ?dest), ?w1)"
    by (simp add: listdir_returns)
  from ok have ok1: "\<forall>op. \<not> io_error ?w1 op"
    by auto
  from files have "\<forall>f\<in>set (bundles r w). exists ?w1 (?dest @ [f])"
    by (auto dest: isfile_exists)
  from getmtimes_returns [OF ok1 this] obtain w2 where
    gm: "getmtimes ?dest (bundles r w) ?w1 = (Inr keyed, w2)" and
    e2: "entries w2 = entries w" and io2: "io_error w2 = io_error w"
    by (auto simp: keyed_def)
  have td: "to_delete r keyed = dels"
    using R by (simp add: to_delete_take dels_def keyed_def)
  have sub: "set dels \<subseteq> set (bundles r w)"
  proof -
    have "set dels \<subseteq> set (map fst (sort_key snd keyed))"
      unfolding dels_def by (rule set_take_subset)
    also have "\<dots> = set (bundles r w)"
      by (simp add: keyed_def image_image)
    finally show ?thesis .
  qed
  have dk: "distinct (map fst (sort_key snd keyed))"
    by (simp add: distinct_map keyed_def inj_on_def comp_def)
  then have dd: "distinct dels"
    unfolding dels_def by (rule distinct_take)
  from ok io2 have ok2: "\<forall>op. \<not> io_error w2 op"
    by simp
  from files sub have f2: "\<forall>f\<in>set dels. isfile w2 (?dest @ [f])"
    by (auto simp: same_entries(2) [OF e2])
  from delete_backups_returns [OF nd ok2 dd f2] obtain w' where
    db: "delete_backups r dels w2 = (Inr (), w')" and
    e': "entries w' = filter (\<lambda>e. fst e \<notin> (\<lambda>f. ?dest @ [f]) ` set dels) (entries w2)"
    by blast
  from ld gm td db have "prune_backups r w = (Inr (), w')"
    by (simp add: prune_backups_def and_then_def bundles_def)
  with e' e2 show ?thesis
    by simp
qed

text \<open>
  Claim C5. Take a real run (no dry run) with a retention of \<open>R \<ge> 1\<close>, a destination
  directory whose entries with a bundle name are \<open>B\<close> files, and an operating system that
  refuses nothing. Then the retention pass returns normally; the bundles left are among
  those found, and \<open>min B R\<close> of them are left, so \<open>B - R\<close> are deleted when \<open>B > R\<close>
  and none when \<open>B \<le> R\<close> (the file system is then unchanged); every deleted bundle is
  gone and is no younger than any bundle left; nothing else in the file system changes.
\<close>

theorem retention_keeps_most_recent:
  assumes R: "1 \<le> retention r"
    and nd: "\<not> dry_run r"
    and ok: "\<forall>op. \<not> io_error w op"
    and dir: "isdir w (destination r)"
    and files: "\<forall>f\<in>set (bundles r w). isfile w (destination r @ [f])"
    and pb: "prune_backups r w = (res, w')"
  shows "res = Inr () \<and>
         set (bundles r w') \<subseteq> set (bundles r w) \<and>
         length (bundles r w') = min (length (bundles r w)) (nat (retention r)) \<and>
         (\<forall>d\<in>set (bundles r w) - set (bundles r w').
            \<not> exists w' (destination r @ [d]) \<and>
            (\<forall>k\<in>set (bundles r w').
               mtime_of w (destination r @ [d]) \<le> mtime_of w (destination r @ [k]))) \<and>
         (\<forall>p. p \<notin> (\<lambda>d. destination r @ [d]) ` (set (bundles r w) - set (bundles r w')) \<longrightarrow>
            lookup w' p = lookup w p) \<and>
         (length (bundles r w) \<le> nat (retention r) \<longrightarrow> entries w' = entries w)"
proof -
  let ?dest = "destination r"
  let ?bs = "bundles r w"
  let ?m = "\<lambda>f. mtime_of w (?dest @ [f])"
  define keyed where "keyed = map (\<lambda>f. (f, ?m f)) ?bs"
  define srt where "srt = sort_key snd keyed"
  define k where "k = length ?bs - nat (retention r)"
  define dels where "dels = take k (map fst srt)"
  from prune_backups_returns [OF R nd ok dir files] pb have res: "res = Inr ()" and
    e': "entries w' = filter (\<lambda>e. fst e \<notin> (\<lambda>f. ?dest @ [f]) ` set dels) (entries w)"
    by (auto simp: dels_def k_def srt_def keyed_def)
  have names: "set (map fst srt) = set ?bs"
    by (simp add: srt_def keyed_def image_image)
  have dnames: "distinct (map fst srt)"
    by (simp add: srt_def distinct_map keyed_def inj_on_def comp_def)
  have sub: "set dels \<subseteq> set ?bs"
    using set_take_subset [of k "map fst srt"] names by (simp add: dels_def)
  have dd: "distinct dels"
    unfolding dels_def using dnames by (rule distinct_take)
  have after: "bundles r w' = filter (\<lambda>n. n \<notin> set dels) ?bs"
    using children_after_delete [OF e'] by (simp add: bundles_def) (metis (mono_tags, lifting) filter_cong)
  then have kept: "set (bundles r w') = set ?bs - set dels"
    by auto
  with sub have gone: "set ?bs - set (bundles r w') = set dels"
    by auto
  have len: "length (bundles r w') = min (length ?bs) (nat (retention r))"
  proof -
    have "length dels = k"
      by (simp add: dels_def srt_def keyed_def k_def)
    with length_filter_out [OF distinct_bundles dd sub] after
    have "length (bundles r w') = length ?bs - k"
      by simp
    then show ?thesis
      unfolding k_def by arith
  qed
  have lk: "lookup w' p = (if p \<in> (\<lambda>f. ?dest @ [f]) ` set dels then None else lookup w p)" for p
    by (simp add: lookup_def e' map_of_filter_keys)
  have order: "?m d \<le> ?m x" if "d \<in> set dels" "x \<in> set (bundles r w')" for d x
  proof -
    from that(1) obtain a where a: "a \<in> set (take k srt)" "fst a = d"
      by (auto simp: dels_def take_map)
    from that(2) kept names have "x \<in> set (map fst srt)" "x \<notin> set (take k (map fst srt))"
      by (auto simp: dels_def)
    then have "x \<in> set (drop k (map fst srt))"
      by (metis Un_iff append_take_drop_id set_append)
    then obtain b where b: "b \<in> set (drop k srt)" "fst b = x"
      by (auto simp: drop_map)
    have "sorted (map snd srt)"
      by (simp add: srt_def)
    from sorted_take_le_drop [OF this a(1) b(1)] have "snd a \<le> snd b" .
    moreover from a(1) have "a \<in> set keyed"
      by (auto simp: srt_def dest: in_set_takeD)
    moreover from b(1) have "b \<in> set keyed"
      by (auto simp: srt_def dest: in_set_dropD)
    ultimately show ?thesis
      using a(2) b(2) by (auto simp: keyed_def)
  qed
  have none: "length ?bs \<le> nat (retention r) \<longrightarrow> entries w' = entries w"
    by (simp add: e' dels_def k_def)
  have c2: "set (bundles r w') \<subseteq> set ?bs"
    using kept by blast
  have c4: "\<forall>d\<in>set ?bs - set (bundles r w').
            \<not> exists w' (?dest @ [d]) \<and>
            (\<forall>x\<in>set (bundles r w'). ?m d \<le> ?m x)"
    unfolding gone using order by (simp add: exists_def lk)
  have c5: "\<forall>p. p \<notin> (\<lambda>d. ?dest @ [d]) ` (set ?bs - set (bundles r w')) \<longrightarrow>
            lookup w' p = lookup w p"
    unfolding gone by (simp add: lk)
  from res c2 len c4 c5 none show ?thesis
    by (intro conjI)
qed

text \<open>Two bundles and a retention of one: one bundle is left.\<close>

theorem retention_keeps_most_recent_witness:
  "1 \<le> retention keep_one_runner \<and> \<not> dry_run keep_one_runner \<and>
   isdir demo_world (destination keep_one_runner) \<and>
   bundles keep_one_runner demo_world = [''nightly_1.zip'', ''nightly_2.zip''] \<and>
   fst (prune_backups keep_one_runner demo_world) = Inr () \<and>
   length (bundles keep_one_runner (snd (prune_backups keep_one_runner demo_world))) = 1"
proof -
  let ?w' = "snd (prune_backups keep_one_runner demo_world)"
  have h1: "1 \<le> retention keep_one_runner"
    by code_simp
  have h2: "\<not> dry_run keep_one_runner"
    by code_simp
  have h3: "\<forall>op. \<not> io_error demo_world op"
    by (simp add: demo_world_def)
  have h4: "isdir demo_world (destination keep_one_runner)"
    by code_simp
  have bs: "bundles keep_one_runner demo_world = [''nightly_1.zip'', ''nightly_2.zip'']"
    by code_simp
  have h5: "\<forall>f\<in>set (bundles keep_one_runner demo_world).
      isfile demo_world (destination keep_one_runner @ [f])"
    by code_simp
  have pb: "prune_backups keep_one_runner demo_world =
      (fst (prune_backups keep_one_runner demo_world), ?w')"
    by simp
  have R: "nat (retention keep_one_runner) = 1"
    by code_simp
  from retention_keeps_most_recent [OF h1 h2 h3 h4 h5 pb]
  have "fst (prune_backups keep_one_runner demo_world) = Inr ()"
    and "length (bundles keep_one_runner ?w') =
           min (length (bundles keep_one_runner demo_world)) (nat (retention keep_one_runner))"
    by blast+
  with h1 h2 h4 bs R show ?thesis
    by simp
qed

end
